theory Spec2Isabelle
  imports Main "HOL-Library.Word" "HOL-Library.Product_Lexorder"
begin

unbundle bit_operations_syntax

section \<open>Machine integers of the Go sources\<close>

text \<open>
  Go's \<open>uint8\<close>, \<open>uint16\<close>, \<open>uint32\<close>, \<open>uint64\<close> are words of that width; \<open>int64\<close> is a
  64-bit word read with \<open>sint\<close>.  A conversion from an unsigned type is \<open>ucast\<close>
  (zero extension or truncation), a conversion from a signed type is \<open>scast\<close> (sign extension).
  Go's \<open>int\<close> is only used for lengths and offsets into byte slices here and is modelled as
  \<open>nat\<close> or \<open>int\<close>.
\<close>

type_synonym byte = "8 word"

lemma uint_ucast_32_64: "uint (ucast (w :: 32 word) :: 64 word) = uint w"
  by (simp add: uint_up_ucast is_up)

lemma sint_ucast_32_64: "sint (ucast (w :: 32 word) :: 64 word) = uint w"
proof -
  have "uint w < 2 ^ 32" using uint_lt2p [of w] by simp
  then have "uint w < 2 ^ 63" by simp
  moreover have "- (2 ^ 63) \<le> uint w"
  proof -
    have "(0::int) \<le> 2 ^ 63" by simp
    then show ?thesis using uint_ge_0 [of w] by linarith
  qed
  ultimately show ?thesis
    by (simp add: signed_ucast_eq signed_take_bit_int_eq_self)
qed

lemma uint_eq_sint_nonneg:
  assumes "0 \<le> sint (p :: 64 word)"
  shows "uint p = sint p"
proof -
  have "sint p < 2 ^ 64" using sint_lt [of p] by (rule less_trans) simp
  then show ?thesis using assms
    by (simp add: uint_sint [of p] take_bit_int_eq_self)
qed

lemma signed_take_bit_sint64: "signed_take_bit 63 (sint (p :: 64 word)) = sint p"
  using sint_ge [of p] sint_lt [of p] by (simp add: signed_take_bit_int_eq_self)

lemma ucast_64_32_of_int:
  "0 \<le> sint (p :: 64 word) \<Longrightarrow> (ucast p :: 32 word) = word_of_int (sint p)"
  by (simp only: ucast_eq uint_eq_sint_nonneg)

lemma word64_of_uint32: "(word_of_int (uint (w :: 32 word)) :: 64 word) = ucast w"
  by (simp only: ucast_eq)

section \<open>msf: the virtual stream (msf/stream.go)\<close>

text \<open>
  Errors of package \<open>msf\<close>.  The sentinel errors keep their Go names; the errors built with
  \<open>fmt.Errorf\<close> carry the value they print.  \<open>EOF\<close> is \<open>io.EOF\<close>,
  \<open>ReaderAtNegativeOffset\<close> the error of the underlying reader for a negative offset, and
  \<open>PanicDivideByZero\<close> Go's run-time panic for an integer division by zero.
\<close>

datatype msf_error =
    EOF
  | NegativeOffset int
  | InvalidSeekWhence int
  | NegativeSeekPosition int
  | ErrInvalidMagic
  | ErrInvalidBlockSize
  | ErrInvalidFPMBlock
  | ErrTruncatedFile
  | FailedToReadSuperBlock
  | FileTooSmall int int
  | ReaderAtNegativeOffset
  | PanicDivideByZero

text \<open>
  The \<open>Stream\<close> struct.  The underlying \<open>io.ReaderAt\<close> is the byte contents of the file.
\<close>

record Stream =
  s_data :: "byte list"
  s_blocks :: "32 word list"
  s_blockSize :: "32 word"
  s_streamSize :: "32 word"
  s_pos :: "32 word"

subsection \<open>Stream.Seek\<close>

text \<open>
  The \<open>switch whence\<close> of \<open>Seek\<close>: \<open>io.SeekStart = 0\<close>, \<open>io.SeekCurrent = 1\<close>,
  \<open>io.SeekEnd = 2\<close>; \<open>None\<close> is the default branch.  The additions are \<open>int64\<close> additions.
\<close>

definition seek_newPos :: "Stream \<Rightarrow> 64 word \<Rightarrow> int \<Rightarrow> 64 word option" where
  "seek_newPos s offset whence =
     (if whence = 0 then Some offset
      else if whence = 1 then Some (ucast (s_pos s) + offset)
      else if whence = 2 then Some (ucast (s_streamSize s) + offset)
      else None)"

text \<open>
  \<open>Seek\<close> returns \<open>(newPos, nil)\<close> as \<open>Inr newPos\<close> and \<open>(0, err)\<close> as \<open>Inl err\<close>, together
  with the stream after the call.
\<close>

definition Seek :: "Stream \<Rightarrow> 64 word \<Rightarrow> int \<Rightarrow> (msf_error + 64 word) \<times> Stream" where
  "Seek s offset whence =
     (case seek_newPos s offset whence of
        None \<Rightarrow> (Inl (InvalidSeekWhence whence), s)
      | Some newPos \<Rightarrow>
          if sint newPos < 0 then (Inl (NegativeSeekPosition (sint newPos)), s)
          else let newPos' = (if sint newPos > sint (ucast (s_streamSize s) :: 64 word)
                              then ucast (s_streamSize s) else newPos)
               in (Inr newPos', s\<lparr>s_pos := ucast newPos'\<rparr>))"

lemma seek_newPos_sint:
  "seek_newPos s offset whence = Some p \<Longrightarrow>
   sint p = signed_take_bit 63
      ((if whence = 0 then 0 else if whence = 1 then uint (s_pos s) else uint (s_streamSize s))
        + sint offset)"
  by (auto simp: seek_newPos_def sint_word_add sint_ucast_32_64 signed_take_bit_sint64
           split: if_splits)

lemma Seek_Some:
  assumes "seek_newPos s offset whence = Some p"
  shows "Seek s offset whence =
     (if sint p < 0 then (Inl (NegativeSeekPosition (sint p)), s)
      else (Inr (word_of_int (min (sint p) (uint (s_streamSize s)))),
            s\<lparr>s_pos := word_of_int (min (sint p) (uint (s_streamSize s)))\<rparr>))"
proof (cases "sint p < 0")
  case True
  with assms show ?thesis by (simp add: Seek_def)
next
  case False
  show ?thesis
  proof (cases "sint p > uint (s_streamSize s)")
    case True
    then have "min (sint p) (uint (s_streamSize s)) = uint (s_streamSize s)" by simp
    moreover have "(ucast (ucast (s_streamSize s) :: 64 word) :: 32 word) = s_streamSize s"
      by (simp add: ucast_up_ucast_id is_up)
    ultimately show ?thesis using assms False True
      by (simp add: Seek_def Let_def sint_ucast_32_64 word64_of_uint32)
  next
    case F2: False
    then have "min (sint p) (uint (s_streamSize s)) = sint p" by simp
    then show ?thesis using assms False F2
      by (simp add: Seek_def Let_def sint_ucast_32_64 ucast_64_32_of_int)
  qed
qed

lemma clamped_fits:
  assumes "0 \<le> t"
  shows "sint (word_of_int (min t (uint (S :: 32 word))) :: 64 word) = min t (uint S)"
    and "uint (word_of_int (min t (uint S)) :: 32 word) = min t (uint S)"
proof -
  let ?c = "min t (uint S)"
  have c0: "0 \<le> ?c" using assms by simp
  have "uint S < 2 ^ 32" using uint_lt2p [of S] by simp
  then have c32: "?c < 2 ^ 32" by simp
  then have c63: "?c < 2 ^ 63" by simp
  have "- (2 ^ 63) \<le> ?c"
  proof -
    have "(0::int) \<le> 2 ^ 63" by simp
    then show ?thesis using c0 by linarith
  qed
  with c63 show "sint (word_of_int ?c :: 64 word) = ?c"
    by (simp add: sint_sbintrunc' signed_take_bit_int_eq_self)
  from c0 c32 show "uint (word_of_int ?c :: 32 word) = ?c"
    by (simp add: uint_word_of_int take_bit_int_eq_self)
qed

text \<open>
  C10.  \<open>target\<close> is the position \<open>Seek\<close> computes: the \<open>int64\<close> sum of the base selected by
  \<open>whence\<close> and the offset.  An unknown \<open>whence\<close> is an error, a negative computed target is
  an error, and both leave the stream as it was.  Every other call succeeds: the position set
  is the target clamped to the stream size, and the position returned is the position set
  (read as integers, both are \<open>min target S\<close>).
\<close>

theorem Seek_clamps_to_size:
  "Seek s offset whence =
     (let target = signed_take_bit 63
            ((if whence = 0 then 0 else if whence = 1 then uint (s_pos s)
              else uint (s_streamSize s)) + sint offset);
          clamped = min target (uint (s_streamSize s))
      in if \<not> (whence = 0 \<or> whence = 1 \<or> whence = 2) then (Inl (InvalidSeekWhence whence), s)
         else if target < 0 then (Inl (NegativeSeekPosition target), s)
         else (Inr (word_of_int clamped), s\<lparr>s_pos := word_of_int clamped\<rparr>))
   \<and> (case Seek s offset whence of
         (Inl e, s') \<Rightarrow> s' = s
       | (Inr p, s') \<Rightarrow> 0 \<le> sint p \<and> sint p \<le> uint (s_streamSize s) \<and> uint (s_pos s') = sint p)"
proof (cases "seek_newPos s offset whence")
  case None
  then have "\<not> (whence = 0 \<or> whence = 1 \<or> whence = 2)"
    by (auto simp: seek_newPos_def split: if_splits)
  with None show ?thesis by (simp add: Seek_def Let_def)
next
  case (Some p)
  then have w: "whence = 0 \<or> whence = 1 \<or> whence = 2"
    by (auto simp: seek_newPos_def split: if_splits)
  have t: "signed_take_bit 63
            ((if whence = 0 then 0 else if whence = 1 then uint (s_pos s)
              else uint (s_streamSize s)) + sint offset) = sint p"
    using seek_newPos_sint [OF Some] by simp
  have first: "Seek s offset whence =
     (let target = signed_take_bit 63
            ((if whence = 0 then 0 else if whence = 1 then uint (s_pos s)
              else uint (s_streamSize s)) + sint offset);
          clamped = min target (uint (s_streamSize s))
      in if \<not> (whence = 0 \<or> whence = 1 \<or> whence = 2) then (Inl (InvalidSeekWhence whence), s)
         else if target < 0 then (Inl (NegativeSeekPosition target), s)
         else (Inr (word_of_int clamped), s\<lparr>s_pos := word_of_int clamped\<rparr>))"
    unfolding Let_def t Seek_Some [OF Some]
    using w by simp
  have second: "(case Seek s offset whence of
         (Inl e, s') \<Rightarrow> s' = s
       | (Inr p, s') \<Rightarrow> 0 \<le> sint p \<and> sint p \<le> uint (s_streamSize s) \<and> uint (s_pos s') = sint p)"
  proof (cases "sint p < 0")
    case True
    then show ?thesis by (simp add: Seek_Some [OF Some])
  next
    case False
    then have "0 \<le> sint p" by simp
    from clamped_fits [OF this, of "s_streamSize s"] False show ?thesis
      by (simp add: Seek_Some [OF Some])
  qed
  from first second show ?thesis by (rule conjI)
qed

subsection \<open>Stream.ReadAt and Stream.Read\<close>

text \<open>
  The underlying \<open>io.ReaderAt\<close> is the byte content of the file, read as \<open>*os.File\<close> reads
  it (\<open>Open\<close> passes the file): a negative offset is an error, the bytes from the offset on are
  copied, and \<open>io.EOF\<close> is returned when fewer than asked for are there.  The first argument
  after the content is the length of the buffer \<open>p[:toRead]\<close>.
\<close>

definition data_ReadAt :: "byte list \<Rightarrow> nat \<Rightarrow> 64 word \<Rightarrow> byte list \<times> msf_error option" where
  "data_ReadAt d n off =
     (if sint off < 0 then ([], Some ReaderAtNegativeOffset)
      else let chunk = take n (drop (nat (sint off)) d)
           in (chunk, if length chunk < n then Some EOF else None))"

text \<open>
  What \<open>ReadAt\<close> returns after its loop: \<open>(0, io.EOF)\<close> when nothing was read and the
  stream's own position is at the end, \<open>(totalRead, nil)\<close> otherwise.  A result is the bytes
  written to the front of \<open>p\<close> (\<open>totalRead\<close> is their number) and the error.
\<close>

definition readAt_finish :: "Stream \<Rightarrow> byte list \<Rightarrow> byte list \<times> msf_error option" where
  "readAt_finish s acc =
     (if length acc = 0 \<and> s_pos s \<ge> s_streamSize s then ([], Some EOF) else (acc, None))"

text \<open>
  One iteration of the loop.  \<open>fileOffset\<close> is an \<open>int64\<close> computed from \<open>uint32\<close> values;
  \<open>toRead\<close> starts as \<open>uint32(len(p))\<close>, which wraps for buffers of \<open>2^32\<close> bytes and more.
  \<open>readAt_step\<close> is the body: \<open>Inl\<close> is a return (or the \<open>break\<close> followed by the code after
  the loop), \<open>Inr\<close> the state \<open>(len(p), pos, bytes read so far)\<close> of the next iteration.  The
  division by a zero block size panics in Go.
\<close>

definition readAt_fileOffset :: "Stream \<Rightarrow> 32 word \<Rightarrow> 64 word" where
  "readAt_fileOffset s pos =
     (let blockIndex = pos div s_blockSize s;
          blockOffset = pos mod s_blockSize s
      in ucast (s_blocks s ! unat blockIndex) * ucast (s_blockSize s) + ucast blockOffset)"

definition readAt_toRead :: "Stream \<Rightarrow> nat \<Rightarrow> 32 word \<Rightarrow> 32 word" where
  "readAt_toRead s n pos =
     (let blockOffset = pos mod s_blockSize s;
          blockRemaining = s_blockSize s - blockOffset;
          streamRemaining = s_streamSize s - pos;
          toRead = (of_nat n :: 32 word);
          toRead = (if toRead > blockRemaining then blockRemaining else toRead);
          toRead = (if toRead > streamRemaining then streamRemaining else toRead)
      in toRead)"

definition readAt_step ::
  "Stream \<Rightarrow> nat \<Rightarrow> 32 word \<Rightarrow> byte list
     \<Rightarrow> (byte list \<times> msf_error option) + (nat \<times> 32 word \<times> byte list)" where
  "readAt_step s n pos acc =
     (if n > 0 \<and> pos < s_streamSize s then
        if s_blockSize s = 0 then Inl (acc, Some PanicDivideByZero)
        else if unat (pos div s_blockSize s) \<ge> length (s_blocks s) then Inl (acc, Some EOF)
        else
          let res = data_ReadAt (s_data s) (unat (readAt_toRead s n pos)) (readAt_fileOffset s pos);
              acc' = acc @ fst res;
              n' = n - length (fst res);
              pos' = pos + of_nat (length (fst res))
          in case snd res of
               None \<Rightarrow> Inr (n', pos', acc')
             | Some e \<Rightarrow> if e = EOF \<and> length acc' > 0 then Inl (readAt_finish s acc')
                         else Inl (acc', Some e)
      else Inl (readAt_finish s acc))"

text \<open>
  The loop itself.  It may run forever (a buffer whose length is a multiple of \<open>2^32\<close> makes
  \<open>toRead\<close> zero, and a read of no bytes succeeds without progress), so not returning is the
  value \<open>None\<close>.
\<close>

partial_function (option) readAt_loop ::
  "Stream \<Rightarrow> nat \<Rightarrow> 32 word \<Rightarrow> byte list \<Rightarrow> (byte list \<times> msf_error option) option" where
  "readAt_loop s n pos acc =
     (case readAt_step s n pos acc of
        Inl r \<Rightarrow> Some r
      | Inr st \<Rightarrow> readAt_loop s (fst st) (fst (snd st)) (snd (snd st)))"

definition ReadAt :: "Stream \<Rightarrow> nat \<Rightarrow> 64 word \<Rightarrow> (byte list \<times> msf_error option) option" where
  "ReadAt s n off =
     (if sint off < 0 then Some ([], Some (NegativeOffset (sint off)))
      else if sint off \<ge> sint (ucast (s_streamSize s) :: 64 word) then Some ([], Some EOF)
      else readAt_loop s n (ucast off) [])"

definition Read :: "Stream \<Rightarrow> nat \<Rightarrow> ((byte list \<times> msf_error option) \<times> Stream) option" where
  "Read s n =
     (if s_pos s \<ge> s_streamSize s then Some (([], Some EOF), s)
      else
        let remaining = s_streamSize s - s_pos s;
            n' = (if (of_nat n :: 32 word) > remaining then unat remaining else n)
        in case ReadAt s n' (ucast (s_pos s)) of
             None \<Rightarrow> None
           | Some res \<Rightarrow> Some (res, s\<lparr>s_pos := s_pos s + of_nat (length (fst res))\<rparr>))"


text \<open>
  The physical offset of the specification, \<open>blocks[o div B] * B + (o mod B)\<close>, and what it
  means for a sequence of bytes read at stream offset \<open>off\<close> to be the bytes of the file at
  those physical offsets.
\<close>

definition phys :: "Stream \<Rightarrow> nat \<Rightarrow> nat" where
  "phys s off = unat (s_blocks s ! (off div unat (s_blockSize s))) * unat (s_blockSize s)
                 + off mod unat (s_blockSize s)"

definition mapped :: "Stream \<Rightarrow> nat \<Rightarrow> byte list \<Rightarrow> bool" where
  "mapped s off bytes =
     (\<forall>i < length bytes.
        off + i < unat (s_streamSize s)
      \<and> (off + i) div unat (s_blockSize s) < length (s_blocks s)
      \<and> phys s (off + i) < length (s_data s)
      \<and> bytes ! i = s_data s ! phys s (off + i))"

lemma data_ReadAt_chunk:
  assumes "j < length (fst (data_ReadAt d m fo))"
  shows "0 \<le> sint fo" and "nat (sint fo) + j < length d"
    and "fst (data_ReadAt d m fo) ! j = d ! (nat (sint fo) + j)"
    and "length (fst (data_ReadAt d m fo)) \<le> m"
  using assms by (auto simp: data_ReadAt_def Let_def split: if_splits)

lemma data_ReadAt_full:
  "snd (data_ReadAt d m fo) = None \<Longrightarrow> length (fst (data_ReadAt d m fo)) = m"
  by (auto simp: data_ReadAt_def Let_def split: if_splits)

lemma fileOffset_nat:
  fixes blk B boff :: "32 word"
  defines "fo \<equiv> (ucast blk :: 64 word) * ucast B + ucast boff"
  assumes "0 \<le> sint fo"
  shows "nat (sint fo) = unat blk * unat B + unat boff"
proof -
  have b: "uint blk < 2 ^ 32" "uint B < 2 ^ 32" "uint boff < 2 ^ 32"
    using uint_lt2p [of blk] uint_lt2p [of B] uint_lt2p [of boff] by simp_all
  have "uint blk * uint B \<le> (2 ^ 32 - 1) * (2 ^ 32 - 1)"
    using b by (intro mult_mono) simp_all
  then have lt: "uint blk * uint B + uint boff < 2 ^ 64" using b(3) by simp
  have "uint fo = (uint blk * uint B + uint boff) mod 2 ^ 64"
    by (simp add: fo_def uint_word_ariths uint_ucast_32_64 mod_simps)
  also have "\<dots> = uint blk * uint B + uint boff"
    using lt by (simp add: mod_pos_pos_trivial)
  finally have "sint fo = uint blk * uint B + uint boff"
    using uint_eq_sint_nonneg [OF assms(2)] by simp
  then have "nat (sint fo) = nat (uint blk * uint B + uint boff)" by simp
  also have "\<dots> = unat blk * unat B + unat boff"
    by (simp add: nat_add_distrib nat_mult_distrib)
  finally show ?thesis .
qed


lemma div_mod_block:
  fixes p B j :: nat
  assumes "0 < B" "p mod B + j < B"
  shows "(p + j) div B = p div B" and "(p + j) mod B = p mod B + j"
proof -
  have e: "p + j = (p mod B + j) + (p div B) * B" by simp
  have "(p + j) div B = (p mod B + j) div B + p div B"
    by (subst e) (simp only: div_mult_self1 [OF less_imp_neq [OF assms(1), symmetric]] div_mult_self3)
  then show "(p + j) div B = p div B" using assms by simp
  have "(p + j) mod B = (p mod B + j) mod B" by (simp add: mod_add_left_eq)
  then show "(p + j) mod B = p mod B + j" using assms by simp
qed

lemma readAt_iter:
  fixes s :: Stream and pos :: "32 word" and n :: nat
  defines "B \<equiv> s_blockSize s"
  defines "bi \<equiv> pos div B" and "boff \<equiv> pos mod B"
  defines "fo \<equiv> readAt_fileOffset s pos"
  defines "tr \<equiv> readAt_toRead s n pos"
  defines "chunk \<equiv> fst (data_ReadAt (s_data s) (unat tr) fo)"
  assumes B0: "B \<noteq> 0" and posS: "pos < s_streamSize s" and bil: "unat bi < length (s_blocks s)"
  shows "unat (pos + of_nat (length chunk)) = unat pos + length chunk"
    and "mapped s (unat pos) chunk"
    and "length chunk \<le> n"
    and "0 < n \<Longrightarrow> n < 2 ^ 32 \<Longrightarrow> 0 < unat tr"
proof -
  define tr0 where "tr0 = (of_nat n :: 32 word)"
  define tr1 where "tr1 = (if tr0 > B - boff then B - boff else tr0)"
  have tr_def: "tr = (if tr1 > s_streamSize s - pos then s_streamSize s - pos else tr1)"
    by (simp add: tr_def readAt_toRead_def Let_def tr1_def tr0_def boff_def B_def)
  have fo_def: "fo = (ucast (s_blocks s ! unat bi) :: 64 word) * ucast B + ucast boff"
    by (simp add: fo_def readAt_fileOffset_def Let_def bi_def boff_def B_def)
  have Bn: "0 < unat B" using B0 by (simp add: unat_gt_0)
  have ubi: "unat bi = unat pos div unat B" by (simp add: bi_def unat_div)
  have uboff: "unat boff = unat pos mod unat B" by (simp add: boff_def unat_mod)
  have boffB: "unat boff < unat B" using Bn by (simp add: uboff)
  then have "boff \<le> B" by (simp add: word_le_nat_alt)
  then have ubr: "unat (B - boff) = unat B - unat boff" by (rule unat_sub)
  have "pos \<le> s_streamSize s" using posS by simp
  then have usr: "unat (s_streamSize s - pos) = unat (s_streamSize s) - unat pos" by (rule unat_sub)
  have posSn: "unat pos < unat (s_streamSize s)" using posS by (simp add: word_less_nat_alt)
  have tr1le: "unat tr1 \<le> unat B - unat boff"
    by (simp add: tr1_def word_less_nat_alt ubr [symmetric])
  have tr1le0: "unat tr1 \<le> unat tr0"
    by (simp add: tr1_def word_less_nat_alt)
  have trle1: "unat tr \<le> unat tr1"
    by (simp add: tr_def word_less_nat_alt)
  have trleS: "unat tr \<le> unat (s_streamSize s) - unat pos"
    by (simp add: tr_def word_less_nat_alt usr [symmetric])
  have trleB: "unat tr \<le> unat B - unat boff" using trle1 tr1le by simp
  have "unat tr0 \<le> n" by (simp add: tr0_def unat_of_nat)
  then have trlen: "unat tr \<le> n" using trle1 tr1le0 by simp
  have clen: "length chunk \<le> unat tr"
    by (cases "chunk = []") (use data_ReadAt_chunk(4) [of 0 "s_data s" "unat tr" fo] in \<open>auto simp: chunk_def\<close>)
  show "length chunk \<le> n" using clen trlen by simp
  have sumS: "unat pos + length chunk \<le> unat (s_streamSize s)" using clen trleS posSn by simp
  have "unat (s_streamSize s) < 2 ^ 32" using unsigned_less [of "s_streamSize s", where 'a = nat] by simp
  then have lt32: "unat pos + length chunk < 2 ^ 32" using sumS by simp
  then have "length chunk < 2 ^ 32" by simp
  then have ul: "unat (of_nat (length chunk) :: 32 word) = length chunk" by (simp add: unat_of_nat)
  show "unat (pos + of_nat (length chunk)) = unat pos + length chunk"
    using lt32 ul by (simp add: unat_add_lem [THEN iffD1])
  show "mapped s (unat pos) chunk"
    unfolding mapped_def
  proof (intro allI impI)
    fix j assume j: "j < length chunk"
    then have jc: "j < length (fst (data_ReadAt (s_data s) (unat tr) fo))" by (simp add: chunk_def)
    have jB: "unat pos mod unat B + j < unat B" using j clen trleB uboff by simp
    have dv: "(unat pos + j) div unat B = unat bi" and md: "(unat pos + j) mod unat B = unat boff + j"
      using div_mod_block [OF Bn jB] by (simp_all add: ubi uboff)
    have fo0: "0 \<le> sint fo" using data_ReadAt_chunk(1) [OF jc] .
    have fon: "nat (sint fo) = unat (s_blocks s ! unat bi) * unat B + unat boff"
      using fo0 unfolding fo_def by (rule fileOffset_nat)
    have ph: "phys s (unat pos + j) = nat (sint fo) + j"
      using dv md by (simp add: phys_def fon B_def)
    show "unat pos + j < unat (s_streamSize s)
      \<and> (unat pos + j) div unat (s_blockSize s) < length (s_blocks s)
      \<and> phys s (unat pos + j) < length (s_data s)
      \<and> chunk ! j = s_data s ! phys s (unat pos + j)"
      using j sumS dv bil data_ReadAt_chunk(2,3) [OF jc]
      by (simp add: ph B_def [symmetric] chunk_def)
  qed
  show "0 < unat tr" if "0 < n" "n < 2 ^ 32"
  proof -
    have "unat tr0 = n" using that by (simp add: tr0_def unat_of_nat)
    moreover have "0 < unat B - unat boff" using boffB by simp
    moreover have "0 < unat (s_streamSize s) - unat pos" using posSn by simp
    ultimately show ?thesis using that
      by (auto simp: tr_def tr1_def ubr usr word_less_nat_alt)
  qed
qed


lemma mapped_Nil: "mapped s off []"
  by (simp add: mapped_def)

lemma mapped_append:
  assumes "mapped s off a" "mapped s (off + length a) c"
  shows "mapped s off (a @ c)"
  unfolding mapped_def
proof (intro allI impI)
  fix i assume i: "i < length (a @ c)"
  show "off + i < unat (s_streamSize s)
      \<and> (off + i) div unat (s_blockSize s) < length (s_blocks s)
      \<and> phys s (off + i) < length (s_data s)
      \<and> (a @ c) ! i = s_data s ! phys s (off + i)"
  proof (cases "i < length a")
    case True
    with assms(1) show ?thesis by (simp add: mapped_def nth_append)
  next
    case False
    then have "i - length a < length c" "off + i = off + length a + (i - length a)"
      using i by simp_all
    with assms(2) False show ?thesis
      unfolding mapped_def nth_append by (metis (no_types, lifting))
  qed
qed

lemma mapped_finish: "mapped s off a \<Longrightarrow> mapped s off (fst (readAt_finish s a))"
  by (simp add: readAt_finish_def mapped_Nil)

lemma readAt_step_Inl:
  assumes "readAt_step s n pos acc = Inl r" "unat pos = off0 + length acc" "mapped s off0 acc"
  shows "mapped s off0 (fst r)"
proof (cases "0 < n \<and> pos < s_streamSize s \<and> s_blockSize s \<noteq> 0
              \<and> unat (pos div s_blockSize s) < length (s_blocks s)")
  case False
  then have "fst r = acc \<or> fst r = fst (readAt_finish s acc)"
    using assms(1) by (auto simp: readAt_step_def split: if_splits)
  then show ?thesis using assms(3) mapped_finish [OF assms(3)] by auto
next
  case True
  define res where "res = data_ReadAt (s_data s) (unat (readAt_toRead s n pos)) (readAt_fileOffset s pos)"
  from True have c: "s_blockSize s \<noteq> 0" "pos < s_streamSize s"
      "unat (pos div s_blockSize s) < length (s_blocks s)" by simp_all
  note it = readAt_iter [of s pos n, OF c, folded res_def]
  have ma': "mapped s off0 (acc @ fst res)"
    using assms(2,3) it(2) by (intro mapped_append) simp_all
  have "fst r = fst (readAt_finish s (acc @ fst res)) \<or> fst r = acc @ fst res"
    using assms(1) True
    by (auto simp: readAt_step_def Let_def res_def [symmetric] split: if_splits option.splits)
  then show ?thesis using ma' mapped_finish [OF ma'] by auto
qed

lemma readAt_step_Inr:
  assumes "readAt_step s n pos acc = Inr st" "unat pos = off0 + length acc" "mapped s off0 acc"
  shows "unat (fst (snd st)) = off0 + length (snd (snd st))"
    and "mapped s off0 (snd (snd st))"
proof -
  define res where "res = data_ReadAt (s_data s) (unat (readAt_toRead s n pos)) (readAt_fileOffset s pos)"
  from assms(1) have c: "0 < n" "s_blockSize s \<noteq> 0" "pos < s_streamSize s"
      "unat (pos div s_blockSize s) < length (s_blocks s)"
    by (auto simp: readAt_step_def split: if_splits)
  note it = readAt_iter [of s pos n, OF c(2,3,4), folded res_def]
  from assms(1) c have st: "snd res = None"
      "st = (n - length (fst res), pos + of_nat (length (fst res)), acc @ fst res)"
    by (auto simp: readAt_step_def Let_def res_def [symmetric] split: if_splits option.splits)
  show "unat (fst (snd st)) = off0 + length (snd (snd st))"
    using it(1) assms(2) by (simp add: st(2))
  show "mapped s off0 (snd (snd st))"
    unfolding st(2) using assms(2,3) it(2) by (simp add: mapped_append)
qed

lemma readAt_step_Inr_less:
  assumes "readAt_step s n pos acc = Inr st" "n < 2 ^ 32"
  shows "fst st < n"
proof -
  define res where "res = data_ReadAt (s_data s) (unat (readAt_toRead s n pos)) (readAt_fileOffset s pos)"
  from assms(1) have c: "0 < n" "s_blockSize s \<noteq> 0" "pos < s_streamSize s"
      "unat (pos div s_blockSize s) < length (s_blocks s)"
    by (auto simp: readAt_step_def split: if_splits)
  note it = readAt_iter [of s pos n, OF c(2,3,4), folded res_def]
  from assms(1) c have st: "snd res = None"
      "st = (n - length (fst res), pos + of_nat (length (fst res)), acc @ fst res)"
    by (auto simp: readAt_step_def Let_def res_def [symmetric] split: if_splits option.splits)
  have "length (fst res) = unat (readAt_toRead s n pos)"
    using st(1) unfolding res_def by (rule data_ReadAt_full)
  then have "0 < length (fst res)" using it(4) [OF c(1) assms(2)] by simp
  then show ?thesis using c(1) by (simp add: st(2))
qed

lemma readAt_loop_mapped:
  assumes "readAt_loop s n pos acc = Some res"
  shows "unat pos = off0 + length acc \<longrightarrow> mapped s off0 acc \<longrightarrow> mapped s off0 (fst res)"
proof (rule readAt_loop.raw_induct
         [where P = "\<lambda>s n pos acc res. unat pos = off0 + length acc \<longrightarrow> mapped s off0 acc
                        \<longrightarrow> mapped s off0 (fst res)", OF _ assms])
  fix f :: "Stream \<Rightarrow> nat \<Rightarrow> 32 word \<Rightarrow> byte list \<Rightarrow> (byte list \<times> msf_error option) option"
    and s :: Stream and n pos acc sa
  assume IH: "\<And>s n pos acc y. f s n pos acc = Some y \<Longrightarrow>
                unat pos = off0 + length acc \<longrightarrow> mapped s off0 acc \<longrightarrow> mapped s off0 (fst y)"
  assume body: "(case readAt_step s n pos acc of
        Inl r \<Rightarrow> Some r
      | Inr st \<Rightarrow> f s (fst st) (fst (snd st)) (snd (snd st))) = Some sa"
  show "unat pos = off0 + length acc \<longrightarrow> mapped s off0 acc \<longrightarrow> mapped s off0 (fst sa)"
  proof (intro impI)
    assume up: "unat pos = off0 + length acc" and ma: "mapped s off0 acc"
    show "mapped s off0 (fst sa)"
    proof (cases "readAt_step s n pos acc")
      case (Inl r)
      with body have "r = sa" by simp
      with readAt_step_Inl [OF Inl up ma] show ?thesis by simp
    next
      case (Inr st)
      with body have "f s (fst st) (fst (snd st)) (snd (snd st)) = Some sa" by simp
      from IH [OF this] readAt_step_Inr(1,2) [OF Inr up ma] show ?thesis by simp
    qed
  qed
qed

lemma readAt_loop_total:
  assumes "n < 2 ^ 32"
  shows "\<exists>res. readAt_loop s n pos acc = Some res"
  using assms
proof (induction n arbitrary: pos acc rule: less_induct)
  case (less n)
  show ?case
  proof (cases "readAt_step s n pos acc")
    case (Inl r)
    then show ?thesis by (subst readAt_loop.simps) simp
  next
    case (Inr st)
    have lt: "fst st < n" using Inr less.prems by (rule readAt_step_Inr_less)
    from less.IH [OF lt] less.prems lt
    obtain res where "readAt_loop s (fst st) (fst (snd st)) (snd (snd st)) = Some res"
      by (meson less_trans)
    then show ?thesis using Inr by (subst readAt_loop.simps) simp
  qed
qed


lemma fileOffset_uint:
  fixes blk B boff :: "32 word"
  shows "uint ((ucast blk :: 64 word) * ucast B + ucast boff) = uint blk * uint B + uint boff"
proof -
  have b: "uint blk < 2 ^ 32" "uint B < 2 ^ 32" "uint boff < 2 ^ 32"
    using uint_lt2p [of blk] uint_lt2p [of B] uint_lt2p [of boff] by simp_all
  have "uint blk * uint B \<le> (2 ^ 32 - 1) * (2 ^ 32 - 1)"
    using b by (intro mult_mono) simp_all
  then have lt: "uint blk * uint B + uint boff < 2 ^ 64" using b(3) by simp
  have "uint ((ucast blk :: 64 word) * ucast B + ucast boff)
          = (uint blk * uint B + uint boff) mod 2 ^ 64"
    by (simp add: uint_word_ariths uint_ucast_32_64 mod_simps)
  also have "\<dots> = uint blk * uint B + uint boff"
    using lt by (simp add: mod_pos_pos_trivial)
  finally show ?thesis .
qed

lemma sint_eq_uint_small:
  assumes "uint (w :: 64 word) < 2 ^ 63"
  shows "sint w = uint w"
proof -
  have "(0::int) \<le> 2 ^ 63" by simp
  then have "- (2 ^ 63) \<le> uint w" using uint_ge_0 [of w] by linarith
  with assms show ?thesis by (simp add: sint_uint signed_take_bit_int_eq_self)
qed

lemma word_not_gt_one: "x \<noteq> 0 \<Longrightarrow> \<not> (1 :: 32 word) > x"
  by (simp add: word_less_nat_alt unat_gt_0 not_less Suc_le_eq)

lemma readAt_toRead_one:
  assumes "s_blockSize s \<noteq> 0" "pos < s_streamSize s"
  shows "readAt_toRead s 1 pos = 1"
proof -
  have "unat (pos mod s_blockSize s) < unat (s_blockSize s)"
    using assms(1) by (simp add: unat_mod unat_gt_0)
  then have "pos mod s_blockSize s < s_blockSize s" by (simp add: word_less_nat_alt)
  then have b: "s_blockSize s \<noteq> pos mod s_blockSize s" by auto
  have r: "s_streamSize s \<noteq> pos" using assms(2) by auto
  show ?thesis
    by (simp add: readAt_toRead_def Let_def word_not_gt_one b r)
qed

lemma ReadAt_single:
  assumes off: "0 \<le> sint off" "sint off < uint (s_streamSize s)"
    and B0: "s_blockSize s \<noteq> 0"
    and bi: "nat (sint off) div unat (s_blockSize s) < length (s_blocks s)"
    and ph: "phys s (nat (sint off)) < length (s_data s)"
    and len: "length (s_data s) < 2 ^ 63"
  shows "ReadAt s 1 off = Some ([s_data s ! phys s (nat (sint off))], None)"
proof -
  define pos where "pos = (ucast off :: 32 word)"
  define p where "p = phys s (nat (sint off))"
  have "uint (s_streamSize s) < 2 ^ 32" using uint_lt2p [of "s_streamSize s"] by simp
  then have o32: "sint off < 2 ^ 32" using off(2) by simp
  have upos: "uint pos = sint off"
    unfolding pos_def unsigned_ucast_eq uint_eq_sint_nonneg [OF off(1)] using off(1) o32
    by (simp add: take_bit_int_eq_self)
  then have npos: "unat pos = nat (sint off)" by (simp add: unat_eq_nat_uint)
  have posS: "pos < s_streamSize s" using off(2) upos by (simp add: word_less_def)
  have ubi: "unat (pos div s_blockSize s) = nat (sint off) div unat (s_blockSize s)"
    by (simp add: unat_div npos)
  have ubo: "unat (pos mod s_blockSize s) = nat (sint off) mod unat (s_blockSize s)"
    by (simp add: unat_mod npos)
  have "uint (readAt_fileOffset s pos) = int p"
    unfolding readAt_fileOffset_def Let_def fileOffset_uint
    by (simp add: p_def phys_def ubi [symmetric] ubo [symmetric] flip: uint_nat) 
  moreover have "int p < 2 ^ 63" using ph len by (simp add: p_def)
  ultimately have fo: "sint (readAt_fileOffset s pos) = int p"
    using sint_eq_uint_small [of "readAt_fileOffset s pos"] by simp
  have chunk: "data_ReadAt (s_data s) (Suc 0) (readAt_fileOffset s pos) = ([s_data s ! p], None)"
    using ph by (simp add: data_ReadAt_def fo Let_def p_def [symmetric] take_Suc_conv_app_nth
                  Cons_nth_drop_Suc [symmetric])
  have tr: "readAt_toRead s (Suc 0) pos = 1"
    using readAt_toRead_one [OF B0 posS] by simp
  have st1: "readAt_step s (Suc 0) pos [] = Inr (0, pos + 1, [s_data s ! p])"
    using posS B0 bi by (simp add: readAt_step_def tr ubi chunk Let_def)
  have st2: "readAt_step s 0 (pos + 1) [s_data s ! p] = Inl ([s_data s ! p], None)"
    by (simp add: readAt_step_def readAt_finish_def)
  have l2: "readAt_loop s 0 (pos + 1) [s_data s ! p] = Some ([s_data s ! p], None)"
    by (subst readAt_loop.simps) (simp add: st2)
  have "readAt_loop s (Suc 0) pos [] = Some ([s_data s ! p], None)"
    by (subst readAt_loop.simps) (simp add: st1 l2)
  then show ?thesis using off
    by (simp add: ReadAt_def sint_ucast_32_64 pos_def p_def not_le)
qed


lemma unat_ucast_off:
  assumes "0 \<le> sint (off :: 64 word)" "sint off < uint (S :: 32 word)"
  shows "unat (ucast off :: 32 word) = nat (sint off)"
proof -
  have "uint S < 2 ^ 32" using uint_lt2p [of S] by simp
  then have o32: "sint off < 2 ^ 32" using assms(2) by simp
  have "uint (ucast off :: 32 word) = sint off"
    unfolding unsigned_ucast_eq uint_eq_sint_nonneg [OF assms(1)] using assms(1) o32
    by (simp add: take_bit_int_eq_self)
  then show ?thesis by (simp add: unat_eq_nat_uint)
qed

lemma ReadAt_mapped:
  assumes "ReadAt s n off = Some (bytes, err)" "i < length bytes"
  shows "0 \<le> sint off \<and> nat (sint off) + i < unat (s_streamSize s)
       \<and> (nat (sint off) + i) div unat (s_blockSize s) < length (s_blocks s)
       \<and> bytes ! i = s_data s ! phys s (nat (sint off) + i)"
proof -
  from assms have off: "0 \<le> sint off" "sint off < uint (s_streamSize s)"
    and loop: "readAt_loop s n (ucast off) [] = Some (bytes, err)"
    by (auto simp: ReadAt_def sint_ucast_32_64 split: if_splits)
  have "unat (ucast off :: 32 word) = nat (sint off) + length ([] :: byte list)"
    using unat_ucast_off [OF off] by simp
  with readAt_loop_mapped [OF loop, of "nat (sint off)"]
  have "mapped s (nat (sint off)) bytes" by (simp add: mapped_Nil)
  with assms(2) off(1) show ?thesis by (simp add: mapped_def)
qed

lemma ReadAt_total: "n < 2 ^ 32 \<Longrightarrow> \<exists>r. ReadAt s n off = Some r"
  using readAt_loop_total [of n s "ucast off" "[]"] by (simp add: ReadAt_def)

lemma ReadAt_past_end:
  "uint (s_streamSize s) \<le> sint off \<Longrightarrow> ReadAt s n off = Some ([], Some EOF)"
proof -
  assume a: "uint (s_streamSize s) \<le> sint off"
  have "0 \<le> uint (s_streamSize s)" by simp
  with a have "\<not> sint off < 0" by linarith
  with a show ?thesis by (simp add: ReadAt_def sint_ucast_32_64)
qed

text \<open>
  C1.  Every byte \<open>ReadAt\<close> returns for stream offset \<open>o = off + i\<close> lies inside the stream, in
  a block of the block list, and is the byte of the file at
  \<open>blocks[o div B] * B + (o mod B)\<close>.  A one-byte read at an offset inside the stream returns
  exactly that byte whenever the block list and the file hold it.  \<open>ReadAt\<close> returns for every
  buffer shorter than \<open>2^32\<close> bytes.  At an offset \<open>o \<ge> S\<close>, \<open>ReadAt\<close> returns no bytes and
  \<open>io.EOF\<close>, and so does \<open>Read\<close> when the stream's position is at or past the end (the
  position stays as it is).
\<close>

theorem ReadAt_block_mapping:
  "(ReadAt s n off = Some (bytes, err) \<longrightarrow> i < length bytes \<longrightarrow>
       0 \<le> sint off \<and> nat (sint off) + i < unat (s_streamSize s)
       \<and> (nat (sint off) + i) div unat (s_blockSize s) < length (s_blocks s)
       \<and> bytes ! i = s_data s ! phys s (nat (sint off) + i))
   \<and> (0 \<le> sint off \<longrightarrow> sint off < uint (s_streamSize s) \<longrightarrow> s_blockSize s \<noteq> 0 \<longrightarrow>
        nat (sint off) div unat (s_blockSize s) < length (s_blocks s) \<longrightarrow>
        phys s (nat (sint off)) < length (s_data s) \<longrightarrow> length (s_data s) < 2 ^ 63 \<longrightarrow>
        ReadAt s 1 off = Some ([s_data s ! phys s (nat (sint off))], None))
   \<and> (n < 2 ^ 32 \<longrightarrow> (\<exists>r. ReadAt s n off = Some r))
   \<and> (uint (s_streamSize s) \<le> sint off \<longrightarrow> ReadAt s n off = Some ([], Some EOF))
   \<and> (s_streamSize s \<le> s_pos s \<longrightarrow> Read s n = Some (([], Some EOF), s))"
  using ReadAt_mapped [of s n off bytes err i] ReadAt_single [of off s]
    ReadAt_total [of n s off] ReadAt_past_end [of s off n]
  by (simp add: Read_def)

text \<open>
  A stream of six bytes over two blocks of four bytes, stored in the file in reverse order.
\<close>

definition ex_stream :: Stream where
  "ex_stream = \<lparr>s_data = [10, 11, 12, 13, 20, 21, 22, 23, 30, 31, 32, 33],
                 s_blocks = [2, 1], s_blockSize = 4, s_streamSize = 6, s_pos = 0\<rparr>"


theorem ReadAt_block_mapping_witness:
  "ReadAt ex_stream 6 0 = Some ([30, 31, 32, 33, 20, 21], None)
   \<and> [30, 31, 32, 33, 20, 21 :: byte] ! 4 = s_data ex_stream ! phys ex_stream 4
   \<and> phys ex_stream 4 = 4
   \<and> ReadAt ex_stream 1 5 = Some ([21], None)
   \<and> ReadAt ex_stream 10 6 = Some ([], Some EOF)
   \<and> Read (ex_stream\<lparr>s_pos := 6\<rparr>) 3 = Some (([], Some EOF), ex_stream\<lparr>s_pos := 6\<rparr>)"
proof -
  have r: "ReadAt ex_stream 6 0 = Some ([30, 31, 32, 33, 20, 21], None)"
    by (simp add: ReadAt_def ex_stream_def readAt_loop.simps readAt_step_def readAt_toRead_def
        readAt_fileOffset_def data_ReadAt_def readAt_finish_def Let_def)
  have p4: "phys ex_stream 4 = 4" and p5: "phys ex_stream 5 = 5"
    by (simp_all add: phys_def ex_stream_def)
  have m: "[30, 31, 32, 33, 20, 21 :: byte] ! 4 = s_data ex_stream ! phys ex_stream 4"
    using ReadAt_block_mapping [of ex_stream 6 0 "[30, 31, 32, 33, 20, 21]" None 4] r by simp
  have one: "ReadAt ex_stream 1 5 = Some ([21], None)"
    using ReadAt_block_mapping [of ex_stream 6 5 "[]" None 0] p5
    by (simp add: ex_stream_def)
  have e: "ReadAt ex_stream 10 6 = Some ([], Some EOF)"
    using ReadAt_block_mapping [of ex_stream 10 6 "[]" None 0] by (simp add: ex_stream_def)
  have rd: "Read (ex_stream\<lparr>s_pos := 6\<rparr>) 3 = Some (([], Some EOF), ex_stream\<lparr>s_pos := 6\<rparr>)"
    using ReadAt_block_mapping [of "ex_stream\<lparr>s_pos := 6\<rparr>" 3 0 "[]" None 0]
    by (simp add: ex_stream_def)
  from r m p4 one e rd show ?thesis by simp
qed


section \<open>stream: the binary reader (internal/stream)\<close>

text \<open>
  \<open>binary.LittleEndian.Uint16/32/64\<close> as the Go library computes them: the bytes are
  widened, shifted to their place and or-ed together.  The argument is the slice
  \<open>r.data[r.offset:]\<close>; the callers check its length first.
\<close>

definition Uint16 :: "8 word list \<Rightarrow> 16 word" where
  "Uint16 b = ucast (b ! 0) OR push_bit 8 (ucast (b ! 1))"

definition Uint32 :: "8 word list \<Rightarrow> 32 word" where
  "Uint32 b = ucast (b ! 0) OR push_bit 8 (ucast (b ! 1)) OR push_bit 16 (ucast (b ! 2))
                OR push_bit 24 (ucast (b ! 3))"

definition Uint64 :: "8 word list \<Rightarrow> 64 word" where
  "Uint64 b = ucast (b ! 0) OR push_bit 8 (ucast (b ! 1)) OR push_bit 16 (ucast (b ! 2))
                OR push_bit 24 (ucast (b ! 3)) OR push_bit 32 (ucast (b ! 4))
                OR push_bit 40 (ucast (b ! 5)) OR push_bit 48 (ucast (b ! 6))
                OR push_bit 56 (ucast (b ! 7))"

text \<open>The little-endian value of a byte sequence, as a natural number.\<close>

fun le_nat :: "8 word list \<Rightarrow> nat" where
  "le_nat [] = 0"
| "le_nat (b # bs) = unat b + 256 * le_nat bs"

lemma unat_byte_lt: "unat (b :: 8 word) < 256"
  using unsigned_less [of b, where 'a = nat] by simp

lemma unat_ucast_byte:
  assumes "8 \<le> LENGTH('a::len)"
  shows "unat (ucast (b :: 8 word) :: 'a word) = unat b"
proof -
  have "(2::nat) ^ 8 \<le> 2 ^ LENGTH('a)" using assms by (rule power_increasing) simp
  then have "unat b < 2 ^ LENGTH('a)" using unat_byte_lt [of b] by simp
  then show ?thesis by (simp add: unsigned_ucast_eq take_bit_nat_eq_self)
qed

lemma byte_or_push_unat:
  fixes r :: "'a::len word"
  assumes "8 \<le> LENGTH('a)" "unat r < 2 ^ (LENGTH('a) - 8)"
  shows "unat (ucast (b :: 8 word) OR push_bit 8 r) = unat b + 256 * unat r"
proof -
  have "(ucast b :: 'a word) AND push_bit 8 r = 0"
    by (rule bit_eqI) (auto simp: bit_simps dest: bit_imp_le_length)
  then have eq: "ucast b OR push_bit 8 r = (ucast b :: 'a word) + push_bit 8 r"
    by (simp add: disjunctive_add_eq_or)
  have "(2::nat) ^ LENGTH('a) = 2 ^ (8 + (LENGTH('a) - 8))" using assms(1) by simp
  also have "\<dots> = 2 ^ 8 * 2 ^ (LENGTH('a) - 8)" by (rule power_add)
  finally have p: "(256::nat) * 2 ^ (LENGTH('a) - 8) = 2 ^ LENGTH('a)" by simp
  have "256 * unat r < 256 * 2 ^ (LENGTH('a) - 8)" using assms(2) by simp
  then have r: "256 * unat r < 2 ^ LENGTH('a)" by (simp only: p)
  have pr: "unat (push_bit 8 r) = 256 * unat r"
    unfolding unsigned_push_bit_eq using r by (simp add: push_bit_eq_mult take_bit_nat_eq_self)
  have "unat b + 256 * unat r < 256 + 256 * unat r" using unat_byte_lt [of b] by simp
  also have "\<dots> = 256 * (unat r + 1)" by simp
  also have "\<dots> \<le> 256 * 2 ^ (LENGTH('a) - 8)" using assms(2) by simp
  also have "\<dots> = 2 ^ LENGTH('a)" by (rule p)
  finally have "unat (ucast b :: 'a word) + unat (push_bit 8 r) < 2 ^ LENGTH('a)"
    by (simp add: pr unat_ucast_byte [OF assms(1)])
  then have "unat ((ucast b :: 'a word) + push_bit 8 r) = unat (ucast b :: 'a word) + unat (push_bit 8 r)"
    by (simp add: unat_add_lem)
  then show ?thesis by (simp add: eq pr unat_ucast_byte [OF assms(1)])
qed

lemma unat_Uint16: "unat (Uint16 [b0, b1]) = le_nat [b0, b1]"
proof -
  have "unat (ucast b1 :: 16 word) < 2 ^ (LENGTH(16) - 8)"
    using unat_byte_lt [of b1] by (simp add: unat_ucast_byte)
  then show ?thesis
    by (simp add: Uint16_def byte_or_push_unat unat_ucast_byte)
qed

lemma Uint32_nested:
  "Uint32 [b0, b1, b2, b3] =
   ucast b0 OR push_bit 8 (ucast b1 OR push_bit 8 (ucast b2 OR push_bit 8 (ucast b3)))"
  by (simp add: Uint32_def push_bit_or or.assoc)

lemma unat_Uint32: "unat (Uint32 [b0, b1, b2, b3]) = le_nat [b0, b1, b2, b3]"
proof -
  note lt = unat_byte_lt [of b1] unat_byte_lt [of b2] unat_byte_lt [of b3]
  define r3 where "r3 = (ucast b3 :: 32 word)"
  define r2 where "r2 = ucast b2 OR push_bit 8 r3"
  define r1 where "r1 = ucast b1 OR push_bit 8 r2"
  have u3: "unat r3 = le_nat [b3]" by (simp add: r3_def unat_ucast_byte)
  have u2: "unat r2 = le_nat [b2, b3]"
    unfolding r2_def using lt u3 by (simp add: byte_or_push_unat)
  have u1: "unat r1 = le_nat [b1, b2, b3]"
    unfolding r1_def using lt u2 by (simp add: byte_or_push_unat)
  have "Uint32 [b0, b1, b2, b3] = ucast b0 OR push_bit 8 r1"
    unfolding r1_def r2_def r3_def by (rule Uint32_nested)
  then show ?thesis using lt u1 by (simp add: byte_or_push_unat)
qed

lemma Uint64_nested:
  "Uint64 [b0, b1, b2, b3, b4, b5, b6, b7] =
   ucast b0 OR push_bit 8 (ucast b1 OR push_bit 8 (ucast b2 OR push_bit 8 (ucast b3
     OR push_bit 8 (ucast b4 OR push_bit 8 (ucast b5 OR push_bit 8 (ucast b6
     OR push_bit 8 (ucast b7)))))))"
  by (simp add: Uint64_def push_bit_or or.assoc)

lemma unat_Uint64:
  "unat (Uint64 [b0, b1, b2, b3, b4, b5, b6, b7]) = le_nat [b0, b1, b2, b3, b4, b5, b6, b7]"
proof -
  note lt = unat_byte_lt [of b1] unat_byte_lt [of b2] unat_byte_lt [of b3] unat_byte_lt [of b4]
     unat_byte_lt [of b5] unat_byte_lt [of b6] unat_byte_lt [of b7]
  define r7 where "r7 = (ucast b7 :: 64 word)"
  define r6 where "r6 = ucast b6 OR push_bit 8 r7"
  define r5 where "r5 = ucast b5 OR push_bit 8 r6"
  define r4 where "r4 = ucast b4 OR push_bit 8 r5"
  define r3 where "r3 = ucast b3 OR push_bit 8 r4"
  define r2 where "r2 = ucast b2 OR push_bit 8 r3"
  define r1 where "r1 = ucast b1 OR push_bit 8 r2"
  have u7: "unat r7 = le_nat [b7]" by (simp add: r7_def unat_ucast_byte)
  have u6: "unat r6 = le_nat [b6, b7]"
    unfolding r6_def using lt u7 by (simp add: byte_or_push_unat)
  have u5: "unat r5 = le_nat [b5, b6, b7]"
    unfolding r5_def using lt u6 by (simp add: byte_or_push_unat)
  have u4: "unat r4 = le_nat [b4, b5, b6, b7]"
    unfolding r4_def using lt u5 by (simp add: byte_or_push_unat)
  have u3: "unat r3 = le_nat [b3, b4, b5, b6, b7]"
    unfolding r3_def using lt u4 by (simp add: byte_or_push_unat)
  have u2: "unat r2 = le_nat [b2, b3, b4, b5, b6, b7]"
    unfolding r2_def using lt u3 by (simp add: byte_or_push_unat)
  have u1: "unat r1 = le_nat [b1, b2, b3, b4, b5, b6, b7]"
    unfolding r1_def using lt u2 by (simp add: byte_or_push_unat)
  have "Uint64 [b0, b1, b2, b3, b4, b5, b6, b7] = ucast b0 OR push_bit 8 r1"
    unfolding r1_def r2_def r3_def r4_def r5_def r6_def r7_def by (rule Uint64_nested)
  then show ?thesis using lt u1 by (simp add: byte_or_push_unat)
qed


lemma unat_Uint16_take: "2 \<le> length b \<Longrightarrow> unat (Uint16 b) = le_nat (take 2 b)"
proof -
  assume "2 \<le> length b"
  then obtain b0 b1 rest where b: "b = b0 # b1 # rest"
    by (cases b; cases "tl b") auto
  have "Uint16 b = Uint16 [b0, b1]" by (simp add: b Uint16_def)
  then show ?thesis by (simp only: unat_Uint16) (simp add: b)
qed

lemma unat_Uint32_take: "4 \<le> length b \<Longrightarrow> unat (Uint32 b) = le_nat (take 4 b)"
proof -
  assume "4 \<le> length b"
  then obtain b0 b1 b2 b3 rest where b: "b = b0 # b1 # b2 # b3 # rest"
    by (cases b; cases "tl b"; cases "tl (tl b)"; cases "tl (tl (tl b))") auto
  have "Uint32 b = Uint32 [b0, b1, b2, b3]" by (simp add: b Uint32_def)
  then show ?thesis by (simp only: unat_Uint32) (simp add: b)
qed

lemma unat_Uint64_take: "8 \<le> length b \<Longrightarrow> unat (Uint64 b) = le_nat (take 8 b)"
proof -
  assume "8 \<le> length b"
  then obtain b0 b1 b2 b3 r4 where b: "b = b0 # b1 # b2 # b3 # r4" and "4 \<le> length r4"
    by (cases b; cases "tl b"; cases "tl (tl b)"; cases "tl (tl (tl b))") auto
  then obtain b4 b5 b6 b7 rest where r4: "r4 = b4 # b5 # b6 # b7 # rest"
    by (cases r4; cases "tl r4"; cases "tl (tl r4)"; cases "tl (tl (tl r4))") auto
  have "Uint64 b = Uint64 [b0, b1, b2, b3, b4, b5, b6, b7]" by (simp add: b r4 Uint64_def)
  then show ?thesis by (simp only: unat_Uint64) (simp add: b r4)
qed

text \<open>
  The \<open>Reader\<close> struct and its errors.  A read returns its result (or the error) and the
  reader after the call; a failed read leaves the offset where it was, as in the source.
  \<open>rbind\<close> is the \<open>if err != nil { return ..., err }\<close> chaining of the parsers.
  \<open>ReadI8\<close> ... \<open>ReadI64\<close> return the bits of the unsigned read, typed \<open>int8\<close> ... \<open>int64\<close>
  in Go; the signedness shows where the value is converted (\<open>scast\<close>).
\<close>

datatype stream_error = ErrUnexpectedEOF | ErrInvalidString | ErrNegativeOffset | ErrInvalidNumeric

record Reader =
  r_data :: "8 word list"
  r_offset :: nat

type_synonym 'a rd = "Reader \<Rightarrow> (stream_error + 'a) \<times> Reader"

definition rreturn :: "'a \<Rightarrow> 'a rd" where
  "rreturn a r = (Inr a, r)"

definition rbind :: "'a rd \<Rightarrow> ('a \<Rightarrow> 'b rd) \<Rightarrow> 'b rd" where
  "rbind m f r = (case m r of (Inl e, r') \<Rightarrow> (Inl e, r') | (Inr a, r') \<Rightarrow> f a r')"

definition NewReader :: "8 word list \<Rightarrow> Reader" where
  "NewReader d = \<lparr>r_data = d, r_offset = 0\<rparr>"

definition Remaining :: "Reader \<Rightarrow> nat" where
  "Remaining r = (if r_offset r \<ge> length (r_data r) then 0 else length (r_data r) - r_offset r)"

definition ReadU8 :: "8 word rd" where
  "ReadU8 r = (if r_offset r \<ge> length (r_data r) then (Inl ErrUnexpectedEOF, r)
               else (Inr (r_data r ! r_offset r), r\<lparr>r_offset := r_offset r + 1\<rparr>))"

definition ReadU16 :: "16 word rd" where
  "ReadU16 r = (if r_offset r + 2 > length (r_data r) then (Inl ErrUnexpectedEOF, r)
                else (Inr (Uint16 (drop (r_offset r) (r_data r))), r\<lparr>r_offset := r_offset r + 2\<rparr>))"

definition ReadU32 :: "32 word rd" where
  "ReadU32 r = (if r_offset r + 4 > length (r_data r) then (Inl ErrUnexpectedEOF, r)
                else (Inr (Uint32 (drop (r_offset r) (r_data r))), r\<lparr>r_offset := r_offset r + 4\<rparr>))"

definition ReadU64 :: "64 word rd" where
  "ReadU64 r = (if r_offset r + 8 > length (r_data r) then (Inl ErrUnexpectedEOF, r)
                else (Inr (Uint64 (drop (r_offset r) (r_data r))), r\<lparr>r_offset := r_offset r + 8\<rparr>))"

definition ReadI8 :: "8 word rd" where "ReadI8 = ReadU8"
definition ReadI16 :: "16 word rd" where "ReadI16 = ReadU16"
definition ReadI32 :: "32 word rd" where "ReadI32 = ReadU32"
definition ReadI64 :: "64 word rd" where "ReadI64 = ReadU64"

text \<open>\<open>Reader.ReadNumeric\<close>: the \<open>switch leaf\<close> in the order of the source.\<close>

definition ReadNumeric :: "64 word rd" where
  "ReadNumeric =
     rbind ReadU16 (\<lambda>leaf.
       if leaf < 0x8000 then rreturn (ucast leaf)
       else if leaf = 0x8000 then rbind ReadI8 (\<lambda>v. rreturn (scast v))
       else if leaf = 0x8001 then rbind ReadI16 (\<lambda>v. rreturn (scast v))
       else if leaf = 0x8002 then rbind ReadU16 (\<lambda>v. rreturn (ucast v))
       else if leaf = 0x8003 then rbind ReadI32 (\<lambda>v. rreturn (scast v))
       else if leaf = 0x8004 then rbind ReadU32 (\<lambda>v. rreturn (ucast v))
       else if leaf = 0x8009 then rbind ReadI64 (\<lambda>v. rreturn (scast v))
       else if leaf = 0x800a then ReadU64
       else (\<lambda>r. (Inl ErrInvalidNumeric, r)))"

subsection \<open>ReadNumeric against the table of the CodeView numeric encoding\<close>

text \<open>
  The encoding as the specification words it: the table of leaves (width in bytes, signed or
  not), and the decoder that reads the leaf and the value as little-endian numbers and
  sign-extends a signed value to 64 bits.
\<close>

definition numeric_format :: "nat \<Rightarrow> (nat \<times> bool) option" where
  "numeric_format leaf =
     (if leaf = 0x8000 then Some (1, True)
      else if leaf = 0x8001 then Some (2, True)
      else if leaf = 0x8002 then Some (2, False)
      else if leaf = 0x8003 then Some (4, True)
      else if leaf = 0x8004 then Some (4, False)
      else if leaf = 0x8009 then Some (8, True)
      else if leaf = 0x800A then Some (8, False)
      else None)"

definition numeric_spec :: "Reader \<Rightarrow> (stream_error + 64 word) \<times> Reader" where
  "numeric_spec r =
   (let bs = drop (r_offset r) (r_data r) in
    if length bs < 2 then (Inl ErrUnexpectedEOF, r)
    else let leaf = le_nat (take 2 bs); r2 = r\<lparr>r_offset := r_offset r + 2\<rparr> in
      if leaf < 0x8000 then (Inr (of_nat leaf), r2)
      else case numeric_format leaf of
         None \<Rightarrow> (Inl ErrInvalidNumeric, r2)
       | Some (w, is_signed) \<Rightarrow>
           if length bs < 2 + w then (Inl ErrUnexpectedEOF, r2)
           else let v = le_nat (take w (drop 2 bs)) in
             (Inr (if is_signed then word_of_int (signed_take_bit (8 * w - 1) (int v)) else of_nat v),
              r\<lparr>r_offset := r_offset r + 2 + w\<rparr>))"


lemma ReadU8_drop:
  "ReadU8 r = (let bs = drop (r_offset r) (r_data r) in
     if length bs < 1 then (Inl ErrUnexpectedEOF, r)
     else (Inr (bs ! 0), r\<lparr>r_offset := r_offset r + 1\<rparr>))"
  by (auto simp: ReadU8_def Let_def)

lemma ReadU16_drop:
  "ReadU16 r = (let bs = drop (r_offset r) (r_data r) in
     if length bs < 2 then (Inl ErrUnexpectedEOF, r)
     else (Inr (Uint16 bs), r\<lparr>r_offset := r_offset r + 2\<rparr>))"
  by (auto simp: ReadU16_def Let_def)

lemma ReadU32_drop:
  "ReadU32 r = (let bs = drop (r_offset r) (r_data r) in
     if length bs < 4 then (Inl ErrUnexpectedEOF, r)
     else (Inr (Uint32 bs), r\<lparr>r_offset := r_offset r + 4\<rparr>))"
  by (auto simp: ReadU32_def Let_def)

lemma ReadU64_drop:
  "ReadU64 r = (let bs = drop (r_offset r) (r_data r) in
     if length bs < 8 then (Inl ErrUnexpectedEOF, r)
     else (Inr (Uint64 bs), r\<lparr>r_offset := r_offset r + 8\<rparr>))"
  by (auto simp: ReadU64_def Let_def)

lemma le_nat_take1_drop:
  "n < length d \<Longrightarrow> int (le_nat (take (Suc 0) (drop n d))) = uint (d ! n)"
proof -
  assume "n < length d"
  then have "drop n d = d ! n # drop (Suc n) d" by (rule Cons_nth_drop_Suc [symmetric])
  then have "take (Suc 0) (drop n d) = [d ! n]" by simp
  then show ?thesis by simp
qed

lemma ucast_as_nat: "(ucast (v :: 'a::len word) :: 64 word) = of_nat (unat v)"
  by simp

lemma numeric_i8:
  "rbind ReadI8 (\<lambda>v. rreturn (scast v)) r =
    (let bs = drop (r_offset r) (r_data r) in
     if length bs < 1 then (Inl ErrUnexpectedEOF, r)
     else (Inr (word_of_int (signed_take_bit 7 (int (le_nat (take 1 bs))))),
           r\<lparr>r_offset := r_offset r + 1\<rparr>))"
  by (simp add: rbind_def rreturn_def ReadI8_def ReadU8_drop Let_def scast_eq sint_uint le_nat_take1_drop)

lemma numeric_i16:
  "rbind ReadI16 (\<lambda>v. rreturn (scast v)) r =
    (let bs = drop (r_offset r) (r_data r) in
     if length bs < 2 then (Inl ErrUnexpectedEOF, r)
     else (Inr (word_of_int (signed_take_bit 15 (int (le_nat (take 2 bs))))),
           r\<lparr>r_offset := r_offset r + 2\<rparr>))"
  by (simp add: rbind_def rreturn_def ReadI16_def ReadU16_drop Let_def scast_eq sint_uint unat_Uint16_take [symmetric])

lemma numeric_u16:
  "rbind ReadU16 (\<lambda>v. rreturn (ucast v)) r =
    (let bs = drop (r_offset r) (r_data r) in
     if length bs < 2 then (Inl ErrUnexpectedEOF, r)
     else (Inr (of_nat (le_nat (take 2 bs))), r\<lparr>r_offset := r_offset r + 2\<rparr>))"
  by (simp add: rbind_def rreturn_def ReadU16_drop Let_def unat_Uint16_take [symmetric])

lemma numeric_i32:
  "rbind ReadI32 (\<lambda>v. rreturn (scast v)) r =
    (let bs = drop (r_offset r) (r_data r) in
     if length bs < 4 then (Inl ErrUnexpectedEOF, r)
     else (Inr (word_of_int (signed_take_bit 31 (int (le_nat (take 4 bs))))),
           r\<lparr>r_offset := r_offset r + 4\<rparr>))"
  by (simp add: rbind_def rreturn_def ReadI32_def ReadU32_drop Let_def scast_eq sint_uint unat_Uint32_take [symmetric])

lemma numeric_u32:
  "rbind ReadU32 (\<lambda>v. rreturn (ucast v)) r =
    (let bs = drop (r_offset r) (r_data r) in
     if length bs < 4 then (Inl ErrUnexpectedEOF, r)
     else (Inr (of_nat (le_nat (take 4 bs))), r\<lparr>r_offset := r_offset r + 4\<rparr>))"
  by (simp add: rbind_def rreturn_def ReadU32_drop Let_def unat_Uint32_take [symmetric])

lemma numeric_i64:
  "rbind ReadI64 (\<lambda>v. rreturn (scast v)) r =
    (let bs = drop (r_offset r) (r_data r) in
     if length bs < 8 then (Inl ErrUnexpectedEOF, r)
     else (Inr (word_of_int (signed_take_bit 63 (int (le_nat (take 8 bs))))),
           r\<lparr>r_offset := r_offset r + 8\<rparr>))"
  by (simp add: rbind_def rreturn_def ReadI64_def ReadU64_drop Let_def scast_eq sint_uint unat_Uint64_take [symmetric])

lemma numeric_i64_id:
  "rbind ReadI64 rreturn r =
    (let bs = drop (r_offset r) (r_data r) in
     if length bs < 8 then (Inl ErrUnexpectedEOF, r)
     else (Inr (word_of_int (signed_take_bit 63 (int (le_nat (take 8 bs))))),
           r\<lparr>r_offset := r_offset r + 8\<rparr>))"
proof -
  have w: "(word_of_int (signed_take_bit 63 (uint v)) :: 64 word) = v" for v :: "64 word"
  proof -
    have "(scast v :: 64 word) = word_of_int (signed_take_bit 63 (uint v))"
      unfolding scast_eq sint_uint by simp
    then show ?thesis by simp
  qed
  show ?thesis
    by (simp add: rbind_def rreturn_def ReadI64_def ReadU64_drop Let_def
          unat_Uint64_take [symmetric] w)
qed

lemma numeric_u64:
  "ReadU64 r =
    (let bs = drop (r_offset r) (r_data r) in
     if length bs < 8 then (Inl ErrUnexpectedEOF, r)
     else (Inr (of_nat (le_nat (take 8 bs))), r\<lparr>r_offset := r_offset r + 8\<rparr>))"
  by (simp add: ReadU64_drop Let_def unat_Uint64_take [symmetric])


lemma leaf_eq_iff: "(leaf = (numeral k :: 16 word)) = (unat leaf = unat (numeral k :: 16 word))"
  by (rule word_unat_eq_iff)

lemma ReadNumeric_refines: "ReadNumeric r = numeric_spec r"
proof (cases "length (drop (r_offset r) (r_data r)) < 2")
  case True
  then show ?thesis
    by (simp add: ReadNumeric_def numeric_spec_def rbind_def ReadU16_drop Let_def)
next
  case False
  define bs where "bs = drop (r_offset r) (r_data r)"
  define leaf where "leaf = Uint16 bs"
  define r2 where "r2 = r\<lparr>r_offset := r_offset r + 2\<rparr>"
  have len: "2 \<le> length bs" using False by (simp add: bs_def)
  have n: "unat leaf = le_nat (take 2 bs)" unfolding leaf_def using len by (rule unat_Uint16_take)
  have rd: "ReadU16 r = (Inr leaf, r2)"
    using False by (simp add: ReadU16_drop Let_def leaf_def bs_def r2_def)
  have bs2: "drop (r_offset r2) (r_data r2) = drop 2 bs"
    by (simp add: r2_def bs_def)
  have off2: "\<And>w. r2\<lparr>r_offset := r_offset r2 + w\<rparr> = r\<lparr>r_offset := r_offset r + 2 + w\<rparr>"
    by (simp add: r2_def)
  have lenw: "(length (drop 2 bs) < w) = (length bs < 2 + w)" for w
    using len by (auto simp: length_drop)
  have nlt: "(leaf < 0x8000) = (le_nat (take 2 bs) < 0x8000)"
    by (simp add: word_less_nat_alt n)
  have neq: "(leaf = numeral k) = (le_nat (take 2 bs) = unat (numeral k :: 16 word))" for k
    by (simp only: leaf_eq_iff n)
  have step: "ReadNumeric r =
     (if leaf < 0x8000 then rreturn (ucast leaf) r2
       else if leaf = 0x8000 then rbind ReadI8 (\<lambda>v. rreturn (scast v)) r2
       else if leaf = 0x8001 then rbind ReadI16 (\<lambda>v. rreturn (scast v)) r2
       else if leaf = 0x8002 then rbind ReadU16 (\<lambda>v. rreturn (ucast v)) r2
       else if leaf = 0x8003 then rbind ReadI32 (\<lambda>v. rreturn (scast v)) r2
       else if leaf = 0x8004 then rbind ReadU32 (\<lambda>v. rreturn (ucast v)) r2
       else if leaf = 0x8009 then rbind ReadI64 (\<lambda>v. rreturn (scast v)) r2
       else if leaf = 0x800a then ReadU64 r2
       else (Inl ErrInvalidNumeric, r2))"
    unfolding ReadNumeric_def rbind_def [of ReadU16 _ r] rd by simp
  have spec: "numeric_spec r =
     (let leaf = le_nat (take 2 bs) in
      if leaf < 0x8000 then (Inr (of_nat leaf), r2)
      else case numeric_format leaf of
         None \<Rightarrow> (Inl ErrInvalidNumeric, r2)
       | Some (w, is_signed) \<Rightarrow>
           if length bs < 2 + w then (Inl ErrUnexpectedEOF, r2)
           else let v = le_nat (take w (drop 2 bs)) in
             (Inr (if is_signed then word_of_int (signed_take_bit (8 * w - 1) (int v)) else of_nat v),
              r\<lparr>r_offset := r_offset r + 2 + w\<rparr>))"
    unfolding numeric_spec_def Let_def bs_def [symmetric] r2_def [symmetric]
    using len by simp
  have uc: "(ucast leaf :: 64 word) = of_nat (le_nat (take 2 bs))"
    by (simp add: n [symmetric])
  define m where "m = le_nat (take 2 bs)"
  have lf: "(leaf < 0x8000) = (m < 0x8000)" "(leaf = 0x8000) = (m = 0x8000)"
    "(leaf = 0x8001) = (m = 0x8001)" "(leaf = 0x8002) = (m = 0x8002)"
    "(leaf = 0x8003) = (m = 0x8003)" "(leaf = 0x8004) = (m = 0x8004)"
    "(leaf = 0x8009) = (m = 0x8009)" "(leaf = 0x800a) = (m = 0x800a)"
    by (simp_all add: nlt neq m_def)
  note fmts = numeric_i8 numeric_i16 numeric_u16 numeric_i32 numeric_u32 numeric_i64 numeric_u64
  consider "m < 0x8000" | "m = 0x8000" | "m = 0x8001" | "m = 0x8002" | "m = 0x8003"
    | "m = 0x8004" | "m = 0x8009" | "m = 0x800a"
    | "\<not> m < 0x8000" "m \<noteq> 0x8000" "m \<noteq> 0x8001" "m \<noteq> 0x8002" "m \<noteq> 0x8003"
      "m \<noteq> 0x8004" "m \<noteq> 0x8009" "m \<noteq> 0x800a"
    by blast
  then show ?thesis
  proof cases
    case 1
    then show ?thesis
      unfolding step spec lf m_def [symmetric] by (simp add: rreturn_def uc m_def)
  next
    case 2
    then show ?thesis
      unfolding step spec lf m_def [symmetric]
      by (simp add: numeric_format_def numeric_i8 Let_def bs2) (use len in \<open>auto simp: r2_def\<close>)
  next
    case 3
    then show ?thesis
      unfolding step spec lf m_def [symmetric]
      by (simp add: numeric_format_def numeric_i16 Let_def bs2) (use len in \<open>auto simp: r2_def\<close>)
  next
    case 4
    then show ?thesis
      unfolding step spec lf m_def [symmetric]
      by (simp add: numeric_format_def numeric_u16 Let_def bs2) (use len in \<open>auto simp: r2_def\<close>)
  next
    case 5
    then show ?thesis
      unfolding step spec lf m_def [symmetric]
      by (simp add: numeric_format_def numeric_i32 Let_def bs2) (use len in \<open>auto simp: r2_def\<close>)
  next
    case 6
    then show ?thesis
      unfolding step spec lf m_def [symmetric]
      by (simp add: numeric_format_def numeric_u32 Let_def bs2) (use len in \<open>auto simp: r2_def\<close>)
  next
    case 7
    then show ?thesis
      unfolding step spec lf m_def [symmetric]
      by (simp add: numeric_format_def numeric_i64_id Let_def bs2) (use len in \<open>auto simp: r2_def\<close>)
  next
    case 8
    then show ?thesis
      unfolding step spec lf m_def [symmetric]
      by (simp add: numeric_format_def numeric_u64 Let_def bs2) (use len in \<open>auto simp: r2_def\<close>)
  next
    case 9
    then show ?thesis
      unfolding step spec lf m_def [symmetric]
      by (simp add: numeric_format_def)
  qed
qed


text \<open>
  C4.  \<open>ReadNumeric\<close> computes what the table says, for every reader state: a leaf below
  \<open>0x8000\<close> is the value and two bytes are consumed; the seven leaves of the table select
  width and signedness, a signed value being sign-extended to 64 bits; any other leaf is
  \<open>ErrInvalidNumeric\<close>; missing bytes are \<open>ErrUnexpectedEOF\<close>.  The two boundary cases of the
  specification are evaluated on the code: leaf \<open>0x7FFF\<close> gives 32767 after two bytes, and leaf
  \<open>0x8001\<close> followed by \<open>FF FF\<close> gives -1 as a 64-bit value.
\<close>

theorem ReadNumeric_decodes:
  "ReadNumeric r = numeric_spec r
   \<and> ReadNumeric \<lparr>r_data = [0xFF, 0x7F], r_offset = 0\<rparr>
       = (Inr 32767, \<lparr>r_data = [0xFF, 0x7F], r_offset = 2\<rparr>)
   \<and> ReadNumeric \<lparr>r_data = [0x01, 0x80, 0xFF, 0xFF], r_offset = 0\<rparr>
       = (Inr (- 1), \<lparr>r_data = [0x01, 0x80, 0xFF, 0xFF], r_offset = 4\<rparr>)"
proof -
  have "ReadNumeric \<lparr>r_data = [0xFF, 0x7F], r_offset = 0\<rparr>
       = (Inr 32767, \<lparr>r_data = [0xFF, 0x7F], r_offset = 2\<rparr>)"
    by (simp add: ReadNumeric_def rbind_def rreturn_def ReadU16_def Uint16_def)
  moreover have "ReadNumeric \<lparr>r_data = [0x01, 0x80, 0xFF, 0xFF], r_offset = 0\<rparr>
       = (Inr (- 1), \<lparr>r_data = [0x01, 0x80, 0xFF, 0xFF], r_offset = 4\<rparr>)"
    by (simp add: ReadNumeric_def rbind_def rreturn_def ReadU16_def ReadI16_def Uint16_def)
  ultimately show ?thesis using ReadNumeric_refines [of r] by simp
qed

section \<open>msf: the superblock and opening a file (msf/superblock.go, msf/file.go)\<close>

text \<open>
  The constant \<open>Magic\<close>, the 32 bytes
  \<open>"Microsoft C/C++ MSF 7.00\\r\\n\\x1a\\x44\\x53\\x00\\x00\\x00"\<close>.
\<close>

definition Magic :: "byte list" where
  "Magic = [0x4D, 0x69, 0x63, 0x72, 0x6F, 0x73, 0x6F, 0x66, 0x74, 0x20, 0x43, 0x2F, 0x43, 0x2B,
            0x2B, 0x20, 0x4D, 0x53, 0x46, 0x20, 0x37, 0x2E, 0x30, 0x30, 0x0D, 0x0A, 0x1A, 0x44,
            0x53, 0x00, 0x00, 0x00]"

definition SuperBlockSize :: nat where "SuperBlockSize = 56"
definition BlockSizeMin :: "32 word" where "BlockSizeMin = 512"
definition BlockSizeMax :: "32 word" where "BlockSizeMax = 65536"

record SuperBlock =
  FileMagic :: "byte list"
  BlockSize :: "32 word"
  FreeBlockMapBlock :: "32 word"
  NumBlocks :: "32 word"
  NumDirectoryBytes :: "32 word"
  Unknown :: "32 word"
  BlockMapAddr :: "32 word"

text \<open>\<open>SuperBlock.Validate\<close>: \<open>None\<close> is \<open>nil\<close>.\<close>

definition Validate :: "SuperBlock \<Rightarrow> msf_error option" where
  "Validate sb =
     (if FileMagic sb \<noteq> Magic then Some ErrInvalidMagic
      else if BlockSize sb < BlockSizeMin \<or> BlockSize sb > BlockSizeMax then Some ErrInvalidBlockSize
      else if BlockSize sb AND (BlockSize sb - 1) \<noteq> 0 then Some ErrInvalidBlockSize
      else if FreeBlockMapBlock sb \<noteq> 1 \<and> FreeBlockMapBlock sb \<noteq> 2 then Some ErrInvalidFPMBlock
      else None)"

text \<open>
  \<open>ReadSuperBlock\<close> on the bytes the reader holds: \<open>binary.Read\<close> fills the struct field
  by field, little-endian, and fails with \<open>io.EOF\<close> or \<open>io.ErrUnexpectedEOF\<close> (both mapped to
  \<open>ErrTruncatedFile\<close>) when fewer than 56 bytes are there.
\<close>

definition ReadSuperBlock :: "byte list \<Rightarrow> msf_error + SuperBlock" where
  "ReadSuperBlock b =
     (if length b < SuperBlockSize then Inl ErrTruncatedFile
      else let sb = \<lparr>FileMagic = take 32 b,
                       BlockSize = Uint32 (drop 32 b),
                       FreeBlockMapBlock = Uint32 (drop 36 b),
                       NumBlocks = Uint32 (drop 40 b),
                       NumDirectoryBytes = Uint32 (drop 44 b),
                       Unknown = Uint32 (drop 48 b),
                       BlockMapAddr = Uint32 (drop 52 b)\<rparr>
           in case Validate sb of Some e \<Rightarrow> Inl e | None \<Rightarrow> Inr sb)"

text \<open>\<open>SuperBlock.FileSize\<close>: an \<open>int64\<close> product.\<close>

definition FileSize :: "SuperBlock \<Rightarrow> 64 word" where
  "FileSize sb = ucast (NumBlocks sb) * ucast (BlockSize sb)"

record File =
  f_data :: "byte list"
  f_size :: "64 word"
  f_superBlock :: SuperBlock

text \<open>
  \<open>NewFile(r, size)\<close>: \<open>r\<close> is the content behind the \<open>io.ReaderAt\<close>, \<open>size\<close> the \<open>int64\<close>
  the caller passes (\<open>Open\<close> passes the file's size).  \<open>r.ReadAt(sbData, 0)\<close> on a 56-byte
  buffer fails when the content is shorter than 56 bytes.
\<close>

definition NewFile :: "byte list \<Rightarrow> 64 word \<Rightarrow> msf_error + File" where
  "NewFile r sz =
     (if sint sz < int SuperBlockSize then Inl ErrTruncatedFile
      else if length r < SuperBlockSize then Inl FailedToReadSuperBlock
      else case ReadSuperBlock (take SuperBlockSize r) of
             Inl e \<Rightarrow> Inl e
           | Inr sb \<Rightarrow>
               let expectedSize = FileSize sb in
               if sint sz < sint expectedSize then Inl (FileTooSmall (sint sz) (sint expectedSize))
               else Inr \<lparr>f_data = r, f_size = sz, f_superBlock = sb\<rparr>)"

subsection \<open>What NewFile accepts\<close>

lemma pow2_nat_rec:
  "0 < n \<Longrightarrow> (n AND (n - 1) = 0) = (\<exists>k. n = 2 ^ k)" for n :: nat
proof (induction n rule: less_induct)
  case (less n)
  show ?case
  proof (cases "even n")
    case True
    then obtain q where q: "n = 2 * q" by (elim evenE)
    with less.prems have q0: "0 < q" by simp
    have "n - 1 = 2 * (q - 1) + 1" using q q0 by simp
    then have "n AND (n - 1) = 2 * (q AND (q - 1))"
      using q by (subst and_nat_rec) simp
    then have "(n AND (n - 1) = 0) = (q AND (q - 1) = 0)" by simp
    also have "\<dots> = (\<exists>k. q = 2 ^ k)" using less.IH [of q] q q0 by simp
    also have "\<dots> = (\<exists>k. n = 2 ^ k)"
    proof
      assume "\<exists>k. q = 2 ^ k"
      then obtain k where "q = 2 ^ k" ..
      then have "n = 2 ^ Suc k" using q by simp
      then show "\<exists>k. n = 2 ^ k" ..
    next
      assume "\<exists>k. n = 2 ^ k"
      then obtain k where k: "n = 2 ^ k" ..
      with q q0 have "k \<noteq> 0" by (cases k) auto
      then obtain j where "k = Suc j" by (cases k) auto
      with k q have "q = 2 ^ j" by simp
      then show "\<exists>k. q = 2 ^ k" ..
    qed
    finally show ?thesis .
  next
    case False
    then obtain q where q: "n = 2 * q + 1" by (elim oddE)
    then have "n AND (n - 1) = 2 * q"
      by (subst and_nat_rec) simp
    then have "(n AND (n - 1) = 0) = (q = 0)" by simp
    also have "\<dots> = (\<exists>k. n = 2 ^ k)"
    proof
      assume "q = 0"
      then have "n = 2 ^ 0" using q by simp
      then show "\<exists>k. n = 2 ^ k" ..
    next
      assume "\<exists>k. n = 2 ^ k"
      then obtain k where k: "n = 2 ^ k" ..
      with False have "k = 0" by (cases k) auto
      with k q show "q = 0" by simp
    qed
    finally show ?thesis .
  qed
qed


lemma pow2_word32:
  fixes x :: "32 word"
  assumes "x \<noteq> 0"
  shows "(x AND (x - 1) = 0) = (\<exists>k. unat x = 2 ^ k)"
proof -
  have "(x AND (x - 1) = 0) = (unat (x AND (x - 1)) = 0)"
    by (simp add: unsigned_eq_0_iff)
  also have "unat (x AND (x - 1)) = unat x AND (unat x - 1)"
    using assms by (simp add: unsigned_and_eq unat_minus_one)
  also have "(unat x AND (unat x - 1) = 0) = (\<exists>k. unat x = 2 ^ k)"
    using assms by (intro pow2_nat_rec) (simp add: unat_gt_0)
  finally show ?thesis .
qed

lemma block_size_valid_iff:
  fixes x :: "32 word"
  shows "(\<not> (x < BlockSizeMin \<or> x > BlockSizeMax) \<and> x AND (x - 1) = 0)
         = (\<exists>k. 9 \<le> k \<and> k \<le> 16 \<and> unat x = 2 ^ k)"
proof
  assume a: "\<not> (x < BlockSizeMin \<or> x > BlockSizeMax) \<and> x AND (x - 1) = 0"
  then have lo: "512 \<le> unat x" and hi: "unat x \<le> 65536"
    by (simp_all add: BlockSizeMin_def BlockSizeMax_def word_less_nat_alt not_less)
  then have "x \<noteq> 0" by auto
  with a obtain k where k: "unat x = 2 ^ k" by (auto simp: pow2_word32)
  have "(2::nat) ^ 9 \<le> 2 ^ k" using lo k by simp
  then have "9 \<le> k" by (simp only: power_increasing_iff) 
  moreover have "(2::nat) ^ k \<le> 2 ^ 16" using hi k by simp
  then have "k \<le> 16" by (simp only: power_increasing_iff)
  ultimately show "\<exists>k. 9 \<le> k \<and> k \<le> 16 \<and> unat x = 2 ^ k" using k by blast
next
  assume "\<exists>k. 9 \<le> k \<and> k \<le> 16 \<and> unat x = 2 ^ k"
  then obtain k where k: "9 \<le> k" "k \<le> 16" "unat x = 2 ^ k" by blast
  have "(2::nat) ^ 9 \<le> 2 ^ k" using k(1) by (rule power_increasing) simp
  then have lo: "512 \<le> unat x" using k(3) by simp
  have "(2::nat) ^ k \<le> 2 ^ 16" using k(2) by (rule power_increasing) simp
  then have hi: "unat x \<le> 65536" using k(3) by simp
  from lo have "x \<noteq> 0" by auto
  then have "x AND (x - 1) = 0" using k(3) by (auto simp: pow2_word32)
  with lo hi show "\<not> (x < BlockSizeMin \<or> x > BlockSizeMax) \<and> x AND (x - 1) = 0"
    by (simp add: BlockSizeMin_def BlockSizeMax_def word_less_nat_alt not_less)
qed

lemma FileSize_no_overflow:
  assumes "unat (BlockSize sb) \<le> 65536"
  shows "sint (FileSize sb) = int (unat (NumBlocks sb)) * int (unat (BlockSize sb))"
proof -
  let ?n = "uint (NumBlocks sb)" and ?b = "uint (BlockSize sb)"
  have n: "0 \<le> ?n" "?n < 2 ^ 32" using uint_lt2p [of "NumBlocks sb"] by simp_all
  have "int (unat (BlockSize sb)) \<le> int 65536" using assms by (rule of_nat_mono)
  then have b: "0 \<le> ?b" "?b \<le> 2 ^ 16" by simp_all
  have "?n * ?b \<le> ?n * 2 ^ 16" using n b by (intro mult_left_mono) simp_all
  also have "\<dots> < 2 ^ 32 * 2 ^ 16" using n by simp
  finally have up: "?n * ?b < 2 ^ 63" by simp
  have "0 \<le> ?n * ?b" using n b by simp
  moreover have "- (2 ^ 63) \<le> (0::int)" by simp
  ultimately have lo: "- (2 ^ 63) \<le> ?n * ?b" by (rule order_trans [rotated])
  have "sint (FileSize sb) = signed_take_bit 63 (?n * ?b)"
    by (simp add: FileSize_def sint_word_mult sint_ucast_32_64)
  also have "\<dots> = ?n * ?b" using lo up by (simp add: signed_take_bit_int_eq_self)
  finally show ?thesis by simp
qed


lemma unat_Uint32_header:
  assumes "56 \<le> length d" "n + 4 \<le> 56"
  shows "unat (Uint32 (drop n (take 56 d))) = le_nat (take 4 (drop n d))"
proof -
  have "4 \<le> length (drop n (take 56 d))" using assms by simp
  then have "unat (Uint32 (drop n (take 56 d))) = le_nat (take 4 (drop n (take 56 d)))"
    by (rule unat_Uint32_take)
  also have "take 4 (drop n (take 56 d)) = take 4 (drop n d)"
    using assms by (simp add: drop_take min_def)
  finally show ?thesis .
qed

lemma Uint32_header:
  assumes "56 \<le> length d" "n + 4 \<le> 56"
  shows "Uint32 (drop n (take 56 d)) = of_nat (le_nat (take 4 (drop n d)))"
proof -
  have "Uint32 (drop n (take 56 d)) = of_nat (unat (Uint32 (drop n (take 56 d))))" by simp
  then show ?thesis by (simp only: unat_Uint32_header [OF assms])
qed

text \<open>
  C3 (amended).  \<open>NewFile\<close> first refuses a size below the 56 bytes of the superblock
  (\<open>ErrTruncatedFile\<close>) and a reader that cannot supply 56 bytes.
  With at least 56 bytes to read, it checks, in this order: the first 32 bytes
  against the magic (\<open>ErrInvalidMagic\<close>), the block size, which must be a power of two from
  \<open>2^9 = 512\<close> to \<open>2^16 = 65536\<close> (\<open>ErrInvalidBlockSize\<close>), the free-block-map index, which must
  be 1 or 2 (\<open>ErrInvalidFPMBlock\<close>), and the size against \<open>num_blocks * block_size\<close> (a
  file-too-small error; the \<open>int64\<close> product cannot overflow once the block size is valid).
  When none of the four fails the result is the file with the superblock read from the header.
  The fields are the little-endian numbers at offsets 32, 36, 40, 44, 48 and 52.
\<close>

theorem NewFile_validates:
  "NewFile d sz =
    (if sint sz < 56 then Inl ErrTruncatedFile
     else if length d < 56 then Inl FailedToReadSuperBlock
     else let block_size = le_nat (take 4 (drop 32 d));
              fpm = le_nat (take 4 (drop 36 d));
              num_blocks = le_nat (take 4 (drop 40 d))
       in if take 32 d \<noteq> Magic then Inl ErrInvalidMagic
          else if \<not> (\<exists>k. 9 \<le> k \<and> k \<le> 16 \<and> block_size = 2 ^ k) then Inl ErrInvalidBlockSize
          else if \<not> (fpm = 1 \<or> fpm = 2) then Inl ErrInvalidFPMBlock
          else if sint sz < int num_blocks * int block_size
            then Inl (FileTooSmall (sint sz) (int num_blocks * int block_size))
          else Inr \<lparr>f_data = d, f_size = sz,
                    f_superBlock = \<lparr>FileMagic = Magic,
                       BlockSize = of_nat block_size,
                       FreeBlockMapBlock = of_nat fpm,
                       NumBlocks = of_nat num_blocks,
                       NumDirectoryBytes = of_nat (le_nat (take 4 (drop 44 d))),
                       Unknown = of_nat (le_nat (take 4 (drop 48 d))),
                       BlockMapAddr = of_nat (le_nat (take 4 (drop 52 d)))\<rparr>\<rparr>)"
proof (cases "sint sz < 56 \<or> length d < 56")
  case True
  then show ?thesis by (auto simp: NewFile_def SuperBlockSize_def)
next
  case False
  then have sz: "\<not> sint sz < 56" and len: "56 \<le> length d" by simp_all
  define sb where "sb = \<lparr>FileMagic = take 32 d,
                       BlockSize = Uint32 (drop 32 (take 56 d)),
                       FreeBlockMapBlock = Uint32 (drop 36 (take 56 d)),
                       NumBlocks = Uint32 (drop 40 (take 56 d)),
                       NumDirectoryBytes = Uint32 (drop 44 (take 56 d)),
                       Unknown = Uint32 (drop 48 (take 56 d)),
                       BlockMapAddr = Uint32 (drop 52 (take 56 d))\<rparr>"
  define block_size where "block_size = le_nat (take 4 (drop 32 d))"
  define fpm where "fpm = le_nat (take 4 (drop 36 d))"
  define num_blocks where "num_blocks = le_nat (take 4 (drop 40 d))"
  have ubs: "unat (BlockSize sb) = block_size"
    by (simp add: sb_def block_size_def unat_Uint32_header [OF len])
  have ufpm: "unat (FreeBlockMapBlock sb) = fpm"
    by (simp add: sb_def fpm_def unat_Uint32_header [OF len])
  have unb: "unat (NumBlocks sb) = num_blocks"
    by (simp add: sb_def num_blocks_def unat_Uint32_header [OF len])
  have rsb: "ReadSuperBlock (take 56 d) =
               (case Validate sb of Some e \<Rightarrow> Inl e | None \<Rightarrow> Inr sb)"
    using len unfolding sb_def by (simp add: ReadSuperBlock_def SuperBlockSize_def Let_def)
  have fpm_iff: "(FreeBlockMapBlock sb \<noteq> 1 \<and> FreeBlockMapBlock sb \<noteq> 2) = (\<not> (fpm = 1 \<or> fpm = 2))"
    unfolding ufpm [symmetric] by (simp add: word_unat_eq_iff)
  have bs_iff: "(\<not> (BlockSize sb < BlockSizeMin \<or> BlockSize sb > BlockSizeMax)
                  \<and> BlockSize sb AND (BlockSize sb - 1) = 0)
                = (\<exists>k. 9 \<le> k \<and> k \<le> 16 \<and> block_size = 2 ^ k)"
    unfolding ubs [symmetric] by (rule block_size_valid_iff)
  have val: "Validate sb =
       (if take 32 d \<noteq> Magic then Some ErrInvalidMagic
        else if \<not> (\<exists>k. 9 \<le> k \<and> k \<le> 16 \<and> block_size = 2 ^ k) then Some ErrInvalidBlockSize
        else if \<not> (fpm = 1 \<or> fpm = 2) then Some ErrInvalidFPMBlock
        else None)"
    unfolding bs_iff [symmetric] fpm_iff [symmetric]
    by (simp add: Validate_def sb_def)
  have sbval: "take 32 d = Magic \<Longrightarrow> sb = \<lparr>FileMagic = Magic,
                       BlockSize = of_nat block_size,
                       FreeBlockMapBlock = of_nat fpm,
                       NumBlocks = of_nat num_blocks,
                       NumDirectoryBytes = of_nat (le_nat (take 4 (drop 44 d))),
                       Unknown = of_nat (le_nat (take 4 (drop 48 d))),
                       BlockMapAddr = of_nat (le_nat (take 4 (drop 52 d)))\<rparr>"
    by (simp add: sb_def block_size_def fpm_def num_blocks_def Uint32_header [OF len])
  have fs: "sint (FileSize sb) = int num_blocks * int block_size"
    if "\<exists>k. 9 \<le> k \<and> k \<le> 16 \<and> block_size = 2 ^ k"
  proof -
    from that obtain k where k: "k \<le> 16" "block_size = 2 ^ k" by blast
    have "(2::nat) ^ k \<le> 2 ^ 16" using k(1) by (rule power_increasing) simp
    then have "unat (BlockSize sb) \<le> 65536" using k(2) ubs by simp
    then show ?thesis by (simp only: FileSize_no_overflow ubs unb)
  qed
  have nf: "NewFile d sz =
     (case Validate sb of
        Some e \<Rightarrow> Inl e
      | None \<Rightarrow> if sint sz < sint (FileSize sb)
                then Inl (FileTooSmall (sint sz) (sint (FileSize sb)))
                else Inr \<lparr>f_data = d, f_size = sz, f_superBlock = sb\<rparr>)"
    using sz len by (simp add: NewFile_def rsb SuperBlockSize_def Let_def split: option.splits)
  show ?thesis
    unfolding nf val Let_def block_size_def [symmetric] fpm_def [symmetric]
      num_blocks_def [symmetric]
    using sz len fs sbval [unfolded block_size_def [symmetric]] by auto
qed


text \<open>
  A minimal header (block size 4096, free-block map 1, no blocks) is accepted; the same header
  with free-block map 3 is refused.
\<close>

theorem NewFile_validates_witness:
  "NewFile (Magic @ [0, 0x10, 0, 0,  1, 0, 0, 0,  0, 0, 0, 0,  0, 0, 0, 0,  0, 0, 0, 0,  0, 0, 0, 0]) 56
     = Inr \<lparr>f_data = Magic @ [0, 0x10, 0, 0,  1, 0, 0, 0,  0, 0, 0, 0,  0, 0, 0, 0,  0, 0, 0, 0,  0, 0, 0, 0],
             f_size = 56,
             f_superBlock = \<lparr>FileMagic = Magic, BlockSize = 4096, FreeBlockMapBlock = 1,
                NumBlocks = 0, NumDirectoryBytes = 0, Unknown = 0, BlockMapAddr = 0\<rparr>\<rparr>
   \<and> NewFile (Magic @ [0, 0x10, 0, 0,  3, 0, 0, 0,  0, 0, 0, 0,  0, 0, 0, 0,  0, 0, 0, 0,  0, 0, 0, 0]) 56
     = Inl ErrInvalidFPMBlock"
proof -
  have k: "\<exists>k. 9 \<le> k \<and> k \<le> 16 \<and> (4096::nat) = 2 ^ k"
    by (rule exI [of _ 12]) simp
  show ?thesis
    using k
    by (simp add: NewFile_validates Magic_def Let_def) blast
qed

text \<open>
  The four conditions on magic, block size, free-block map and \<open>num_blocks * block_size\<close> do not
  suffice for success. A file of 50 bytes that starts with the magic, has block size 4096,
  free-block map 1 and no blocks (so that its size is not below \<open>num_blocks * block_size = 0\<close>)
  is refused with \<open>ErrTruncatedFile\<close>, because it is shorter than the superblock; the same 50
  bytes presented with size 56 fail when the superblock is read.
\<close>

definition ex_short_header :: "byte list" where
  "ex_short_header = Magic @ [0, 0x10, 0, 0,  1, 0, 0, 0,  0, 0, 0, 0,  0, 0, 0, 0,  0, 0]"

theorem NewFile_short_file_fails:
  "length ex_short_header = 50
   \<and> take 32 ex_short_header = Magic
   \<and> le_nat (take 4 (drop 32 ex_short_header)) = 4096
   \<and> le_nat (take 4 (drop 36 ex_short_header)) = 1
   \<and> le_nat (take 4 (drop 40 ex_short_header)) = 0
   \<and> NewFile ex_short_header 50 = Inl ErrTruncatedFile
   \<and> NewFile ex_short_header 56 = Inl FailedToReadSuperBlock"
  by (simp add: ex_short_header_def Magic_def NewFile_def SuperBlockSize_def)



section \<open>Symbol records (internal/symbols, internal/stream, pdb/symbol.go)\<close>

text \<open>Go strings are byte sequences; names read from the stream are kept as byte lists.
  \<^verbatim>\<open>ReadCString\<close> scans for the terminating zero byte; when none is found it leaves the
  offset at the end of the data (the scanning loop has already moved it there).\<close>

type_synonym gostring = "byte list"

definition ReadCString :: "gostring rd" where
  "ReadCString r =
     (let rest = drop (r_offset r) (r_data r) in
      if 0 \<in> set rest
      then (Inr (takeWhile (\<lambda>b. b \<noteq> 0) rest),
            r\<lparr>r_offset := r_offset r + length (takeWhile (\<lambda>b. b \<noteq> 0) rest) + 1\<rparr>)
      else (Inl ErrUnexpectedEOF, r\<lparr>r_offset := max (r_offset r) (length (r_data r))\<rparr>))"

definition Skip :: "nat \<Rightarrow> unit rd" where
  "Skip n r = (if r_offset r + n > length (r_data r) then (Inl ErrUnexpectedEOF, r)
               else (Inr (), r\<lparr>r_offset := r_offset r + n\<rparr>))"

text \<open>\<^verbatim>\<open>ParseSymbolRecord\<close>: a 16-bit length, a 16-bit kind, and \<^verbatim>\<open>length - 2\<close> bytes of
  payload. The second component of the result is the total record size \<^verbatim>\<open>length + 2\<close>.\<close>

datatype sym_error = ErrInvalidSymbolRecord | ErrUnexpectedEnd | StreamError stream_error

record SymbolRecord =
  Kind :: "16 word"
  Data :: "byte list"

definition S_CONSTANT :: "16 word" where "S_CONSTANT = 0x1107"
definition S_UDT :: "16 word" where "S_UDT = 0x1108"
definition S_LDATA32 :: "16 word" where "S_LDATA32 = 0x110c"
definition S_GDATA32 :: "16 word" where "S_GDATA32 = 0x110d"
definition S_PUB32 :: "16 word" where "S_PUB32 = 0x110e"
definition S_LPROC32 :: "16 word" where "S_LPROC32 = 0x110f"
definition S_GPROC32 :: "16 word" where "S_GPROC32 = 0x1110"
definition S_LPROC32_ID :: "16 word" where "S_LPROC32_ID = 0x1146"
definition S_GPROC32_ID :: "16 word" where "S_GPROC32_ID = 0x1147"

definition ParseSymbolRecord :: "byte list \<Rightarrow> sym_error + (SymbolRecord \<times> nat)" where
  "ParseSymbolRecord d =
     (if length d < 4 then Inl ErrUnexpectedEnd
      else case ReadU16 (NewReader d) of
             (Inl e, r1) \<Rightarrow> Inl (StreamError e)
           | (Inr len, r1) \<Rightarrow>
               (case ReadU16 r1 of
                  (Inl e, r2) \<Rightarrow> Inl (StreamError e)
                | (Inr kind, r2) \<Rightarrow>
                    let totalSize = unat len + 2 in
                    if totalSize > length d then Inl ErrUnexpectedEnd
                    else let dataLen = int (unat len) - 2 in
                      if dataLen < 0 then Inl ErrInvalidSymbolRecord
                      else Inr (\<lparr>Kind = kind, Data = take (nat dataLen) (drop 4 d)\<rparr>, totalSize)))"

text \<open>The record-specific payload parsers used by the iterators and by \<^verbatim>\<open>getSymbolName\<close>.\<close>

record PublicSym32 =
  pub_Flags :: "32 word"
  pub_Offset :: "32 word"
  pub_Segment :: "16 word"
  pub_Name :: gostring

definition ParsePublicSym32 :: "byte list \<Rightarrow> stream_error + PublicSym32" where
  "ParsePublicSym32 d = fst (
     rbind ReadU32 (\<lambda>flags.
     rbind ReadU32 (\<lambda>offset.
     rbind ReadU16 (\<lambda>segment.
     rbind ReadCString (\<lambda>name.
     rreturn \<lparr>pub_Flags = flags, pub_Offset = offset, pub_Segment = segment, pub_Name = name\<rparr>))))
     (NewReader d))"

record ProcSym =
  proc_PtrParent :: "32 word"
  proc_PtrEnd :: "32 word"
  proc_PtrNext :: "32 word"
  proc_CodeSize :: "32 word"
  proc_DbgStart :: "32 word"
  proc_DbgEnd :: "32 word"
  proc_FunctionType :: "32 word"
  proc_CodeOffset :: "32 word"
  proc_Segment :: "16 word"
  proc_Flags :: "8 word"
  proc_Name :: gostring

definition ParseProcSym :: "byte list \<Rightarrow> stream_error + ProcSym" where
  "ParseProcSym d = fst (
     rbind ReadU32 (\<lambda>ptrParent.
     rbind ReadU32 (\<lambda>ptrEnd.
     rbind ReadU32 (\<lambda>ptrNext.
     rbind ReadU32 (\<lambda>codeSize.
     rbind ReadU32 (\<lambda>dbgStart.
     rbind ReadU32 (\<lambda>dbgEnd.
     rbind ReadU32 (\<lambda>funcType.
     rbind ReadU32 (\<lambda>codeOffset.
     rbind ReadU16 (\<lambda>segment.
     rbind ReadU8 (\<lambda>flags.
     rbind ReadCString (\<lambda>name.
     rreturn \<lparr>proc_PtrParent = ptrParent, proc_PtrEnd = ptrEnd, proc_PtrNext = ptrNext,
              proc_CodeSize = codeSize, proc_DbgStart = dbgStart, proc_DbgEnd = dbgEnd,
              proc_FunctionType = funcType, proc_CodeOffset = codeOffset,
              proc_Segment = segment, proc_Flags = flags, proc_Name = name\<rparr>)))))))))))
     (NewReader d))"

record DataSym =
  data_Type :: "32 word"
  data_Offset :: "32 word"
  data_Segment :: "16 word"
  data_Name :: gostring

definition ParseDataSym :: "byte list \<Rightarrow> stream_error + DataSym" where
  "ParseDataSym d = fst (
     rbind ReadU32 (\<lambda>typeIndex.
     rbind ReadU32 (\<lambda>offset.
     rbind ReadU16 (\<lambda>segment.
     rbind ReadCString (\<lambda>name.
     rreturn \<lparr>data_Type = typeIndex, data_Offset = offset, data_Segment = segment,
              data_Name = name\<rparr>))))
     (NewReader d))"

record UDTSym =
  udt_Type :: "32 word"
  udt_Name :: gostring

definition ParseUDTSym :: "byte list \<Rightarrow> stream_error + UDTSym" where
  "ParseUDTSym d = fst (
     rbind ReadU32 (\<lambda>typeIndex.
     rbind ReadCString (\<lambda>name.
     rreturn \<lparr>udt_Type = typeIndex, udt_Name = name\<rparr>))
     (NewReader d))"

record ConstantSym =
  const_Type :: "32 word"
  const_Value :: "64 word"
  const_Name :: gostring

definition ParseConstantSym :: "byte list \<Rightarrow> stream_error + ConstantSym" where
  "ParseConstantSym d = fst (
     rbind ReadU32 (\<lambda>typeIndex.
     rbind ReadNumeric (\<lambda>v.
     rbind ReadCString (\<lambda>name.
     rreturn \<lparr>const_Type = typeIndex, const_Value = v, const_Name = name\<rparr>)))
     (NewReader d))"

definition getSymbolName :: "SymbolRecord \<Rightarrow> gostring" where
  "getSymbolName rec =
     (if Kind rec = S_PUB32 then
        (case ParsePublicSym32 (Data rec) of Inr sy \<Rightarrow> pub_Name sy | Inl e \<Rightarrow> [])
      else if Kind rec = S_GPROC32 \<or> Kind rec = S_LPROC32 \<or> Kind rec = S_GPROC32_ID
              \<or> Kind rec = S_LPROC32_ID then
        (case ParseProcSym (Data rec) of Inr sy \<Rightarrow> proc_Name sy | Inl e \<Rightarrow> [])
      else if Kind rec = S_GDATA32 \<or> Kind rec = S_LDATA32 then
        (case ParseDataSym (Data rec) of Inr sy \<Rightarrow> data_Name sy | Inl e \<Rightarrow> [])
      else if Kind rec = S_UDT then
        (case ParseUDTSym (Data rec) of Inr sy \<Rightarrow> udt_Name sy | Inl e \<Rightarrow> [])
      else if Kind rec = S_CONSTANT then
        (case ParseConstantSym (Data rec) of Inr sy \<Rightarrow> const_Name sy | Inl e \<Rightarrow> [])
      else [])"

definition hashName :: "gostring \<Rightarrow> 32 word" where
  "hashName name = foldl (\<lambda>hash b. hash * 31 + ucast b) 0 name"

lemma ParseSymbolRecord_size:
  assumes "ParseSymbolRecord d = Inr (rec, sz)"
  shows "sz = le_nat (take 2 d) + 2" and "4 \<le> sz" and "sz \<le> length d"
    and "Kind rec = Uint16 (drop 2 d)" and "Data rec = take (sz - 4) (drop 4 d)"
proof -
  from assms have l4: "\<not> length d < 4"
    by (auto simp: ParseSymbolRecord_def split: if_splits)
  then have u: "unat (Uint16 d) = le_nat (take 2 d)" by (simp add: unat_Uint16_take)
  have d2: "drop (Suc (Suc 0)) d = drop 2 d" by (simp add: numeral_2_eq_2)
  from assms l4 have a: "\<not> le_nat (take 2 d) + 2 > length d" "\<not> int (le_nat (take 2 d)) - 2 < 0"
     "sz = le_nat (take 2 d) + 2"
     "rec = \<lparr>Kind = Uint16 (drop 2 d), Data = take (nat (int (le_nat (take 2 d)) - 2)) (drop 4 d)\<rparr>"
    by (auto simp: ParseSymbolRecord_def ReadU16_def NewReader_def Let_def u d2 split: if_splits)
  show "sz = le_nat (take 2 d) + 2" by (rule a(3))
  show "4 \<le> sz" using a(2,3) by simp
  show "sz \<le> length d" using a(1,3) by simp
  show "Kind rec = Uint16 (drop 2 d)" by (simp add: a(4))
  have "nat (int (le_nat (take 2 d)) - 2) = sz - 4" using a(2,3) by simp
  then show "Data rec = take (sz - 4) (drop 4 d)" by (simp add: a(4))
qed


text \<open>The record iterators. \<^verbatim>\<open>SymbolTable.Public\<close> and \<^verbatim>\<open>PublicCount\<close> run
  \<^verbatim>\<open>for offset < len(data)-4\<close>; the name index build runs \<^verbatim>\<open>for r.Remaining() > 4\<close>.
  Each loop stops at the first record \<^verbatim>\<open>ParseSymbolRecord\<close> rejects. The loops return the
  final cursor next to their result so that the cursor can be observed.\<close>

record PublicSymbol =
  ps_name :: gostring
  ps_section :: "16 word"
  ps_offset :: "32 word"
  ps_flags :: "32 word"

definition public_yield :: "SymbolRecord \<Rightarrow> PublicSymbol list" where
  "public_yield rec =
     (if Kind rec = S_PUB32 then
        (case ParsePublicSym32 (Data rec) of
           Inr sy \<Rightarrow> [\<lparr>ps_name = pub_Name sy, ps_section = pub_Segment sy,
                        ps_offset = pub_Offset sy, ps_flags = pub_Flags sy\<rparr>]
         | Inl e \<Rightarrow> [])
      else [])"

function Public_loop :: "byte list \<Rightarrow> nat \<Rightarrow> PublicSymbol list \<Rightarrow> PublicSymbol list \<times> nat" where
  "Public_loop d offset acc =
     (if int offset < int (length d) - 4 then
        (case ParseSymbolRecord (drop offset d) of
           Inl e \<Rightarrow> (acc, offset)
         | Inr (rec, sz) \<Rightarrow> Public_loop d (offset + sz) (acc @ public_yield rec))
      else (acc, offset))"
  by pat_completeness auto
termination
proof (relation "measure (\<lambda>(d, offset, acc). length d - offset)", goal_cases)
  case 1
  show ?case by simp
next
  case (2 d offset acc x2 rec sz)
  then have "4 \<le> sz" using ParseSymbolRecord_size(2) [of "drop offset d" rec sz] by simp
  with 2 show ?case by simp
qed

declare Public_loop.simps [simp del]

function PublicCount_loop :: "byte list \<Rightarrow> nat \<Rightarrow> nat \<Rightarrow> nat \<times> nat" where
  "PublicCount_loop d offset count =
     (if int offset < int (length d) - 4 then
        (case ParseSymbolRecord (drop offset d) of
           Inl e \<Rightarrow> (count, offset)
         | Inr (rec, sz) \<Rightarrow>
             PublicCount_loop d (offset + sz) (if Kind rec = S_PUB32 then count + 1 else count))
      else (count, offset))"
  by pat_completeness auto
termination
proof (relation "measure (\<lambda>(d, offset, count). length d - offset)", goal_cases)
  case 1
  show ?case by simp
next
  case (2 d offset count x2 rec sz)
  then have "4 \<le> sz" using ParseSymbolRecord_size(2) [of "drop offset d" rec sz] by simp
  with 2 show ?case by simp
qed

declare PublicCount_loop.simps [simp del]

text \<open>The symbol table, with the fields these functions read or write. \<open>symRecordData\<close> is
  what \<^verbatim>\<open>ensureSymRecordData\<close> leaves in the field: \<open>None\<close> is Go's \<^verbatim>\<open>nil\<close>, the value when
  the stream is absent or could not be read (every function below then returns its empty
  result). \<open>publicSymbols\<close> is the cache written by \<^verbatim>\<open>PublicCached\<close> (again \<open>None\<close> for \<^verbatim>\<open>nil\<close>)
  and \<open>publicSymbolsOnce\<close> the \<^verbatim>\<open>sync.Once\<close> that guards it. \<^verbatim>\<open>Public\<close> is the whole sequence
  the iterator yields to a consumer that never stops it.\<close>

record SymbolTable =
  symRecordData :: "byte list option"
  publicSymbols :: "PublicSymbol list option"
  publicSymbolsOnce :: bool

definition newSymbolTable :: "byte list option \<Rightarrow> SymbolTable" where
  "newSymbolTable d = \<lparr>symRecordData = d, publicSymbols = None, publicSymbolsOnce = False\<rparr>"

definition Public :: "SymbolTable \<Rightarrow> PublicSymbol list" where
  "Public st =
     (case symRecordData st of
        None \<Rightarrow> []
      | Some d \<Rightarrow> fst (Public_loop d 0 []))"

definition loadPublicSymbols :: "SymbolTable \<Rightarrow> PublicSymbol list option" where
  "loadPublicSymbols st =
     (case symRecordData st of
        None \<Rightarrow> None
      | Some d \<Rightarrow>
          let count = fst (PublicCount_loop d 0 0)
          in Some (fst (Public_loop d 0 [])))"

definition PublicCached :: "SymbolTable \<Rightarrow> PublicSymbol list option \<times> SymbolTable" where
  "PublicCached st =
     (let st' = (if publicSymbolsOnce st then st
                 else st\<lparr>publicSymbols := loadPublicSymbols st, publicSymbolsOnce := True\<rparr>)
      in (publicSymbols st', st'))"

definition PublicCount :: "SymbolTable \<Rightarrow> nat" where
  "PublicCount st =
     (case publicSymbols st of
        Some ps \<Rightarrow> length ps
      | None \<Rightarrow>
          (case symRecordData st of
             None \<Rightarrow> 0
           | Some d \<Rightarrow> fst (PublicCount_loop d 0 0)))"

record nameEntry =
  ne_name :: gostring
  ne_symOffset :: "32 word"

record NameIndex =
  buckets :: "nameEntry list list"
  numBuckets :: "32 word"

definition add_name :: "nat \<Rightarrow> SymbolRecord \<Rightarrow> nameEntry list list \<Rightarrow> nameEntry list list" where
  "add_name offset rec bs =
     (let name = getSymbolName rec in
      if name \<noteq> [] then
        let bucket = unat (hashName name mod 4096)
        in bs[bucket := bs ! bucket @ [\<lparr>ne_name = name, ne_symOffset = of_nat offset\<rparr>]]
      else bs)"

function NewNameIndex_loop :: "Reader \<Rightarrow> nameEntry list list \<Rightarrow> nameEntry list list \<times> Reader" where
  "NewNameIndex_loop r bs =
     (if Remaining r > 4 then
        (let offset = r_offset r in
         case ParseSymbolRecord (drop offset (r_data r)) of
           Inl e \<Rightarrow> (bs, r)
         | Inr (rec, sz) \<Rightarrow> NewNameIndex_loop (snd (Skip sz r)) (add_name offset rec bs))
      else (bs, r))"
  by pat_completeness auto
termination
proof (relation "measure (\<lambda>(r, bs). length (r_data r) - r_offset r)", goal_cases)
  case 1
  show ?case by simp
next
  case (2 r bs offset x2 rec sz)
  then have "4 \<le> sz" "sz \<le> length (drop (r_offset r) (r_data r))"
    using ParseSymbolRecord_size(2,3) [of "drop (r_offset r) (r_data r)" rec sz] by simp_all
  with 2 show ?case by (auto simp: Skip_def Remaining_def split: if_splits)
qed

declare NewNameIndex_loop.simps [simp del]

definition NewNameIndex :: "byte list \<Rightarrow> NameIndex" where
  "NewNameIndex symData =
     \<lparr>buckets = fst (NewNameIndex_loop (NewReader symData) (replicate 4096 [])),
      numBuckets = 4096\<rparr>"

definition FindByName :: "NameIndex \<Rightarrow> gostring \<Rightarrow> 32 word list" where
  "FindByName idx name =
     (let bucket = hashName name mod numBuckets idx;
          entries = buckets idx ! unat bucket
      in map ne_symOffset (filter (\<lambda>e. ne_name e = name) entries))"


text \<open>The sequence of (offset, record) pairs the loop guard and \<^verbatim>\<open>ParseSymbolRecord\<close>
  together visit, starting at a given offset. It is used only to state what the three loops
  compute; each loop is shown to be a fold over it.\<close>

function frames :: "byte list \<Rightarrow> nat \<Rightarrow> (nat \<times> SymbolRecord) list" where
  "frames d offset =
     (if int offset < int (length d) - 4 then
        (case ParseSymbolRecord (drop offset d) of
           Inl e \<Rightarrow> []
         | Inr (rec, sz) \<Rightarrow> (offset, rec) # frames d (offset + sz))
      else [])"
  by pat_completeness auto
termination
proof (relation "measure (\<lambda>(d, offset). length d - offset)", goal_cases)
  case 1
  show ?case by simp
next
  case (2 d offset x2 rec sz)
  then have "4 \<le> sz" using ParseSymbolRecord_size(2) [of "drop offset d" rec sz] by simp
  with 2 show ?case by simp
qed

declare frames.simps [simp del]

lemma ParseSymbolRecord_framed:
  assumes "2 \<le> le_nat (take 2 d)" "le_nat (take 2 d) + 2 \<le> length d"
  shows "ParseSymbolRecord d =
           Inr (\<lparr>Kind = Uint16 (drop 2 d), Data = take (le_nat (take 2 d) - 2) (drop 4 d)\<rparr>,
                le_nat (take 2 d) + 2)"
proof -
  have l4: "\<not> length d < 4" using assms by simp
  then have u: "unat (Uint16 d) = le_nat (take 2 d)" by (simp add: unat_Uint16_take)
  have d2: "drop (Suc (Suc 0)) d = drop 2 d" by (simp add: numeral_2_eq_2)
  have n: "nat (int (le_nat (take 2 d)) - 2) = le_nat (take 2 d) - 2" using assms(1) by simp
  show ?thesis
    using assms l4
    by (simp add: ParseSymbolRecord_def ReadU16_def NewReader_def Let_def u d2 n)
qed

lemma Public_loop_frames:
  "fst (Public_loop d offset acc) = acc @ concat (map (\<lambda>(o', rec). public_yield rec) (frames d offset))"
proof (induction d offset acc rule: Public_loop.induct)
  case (1 d offset acc)
  show ?case
  proof (cases "int offset < int (length d) - 4")
    case False
    then show ?thesis by (subst Public_loop.simps, subst frames.simps) simp
  next
    case True
    show ?thesis
    proof (cases "ParseSymbolRecord (drop offset d)")
      case (Inl e)
      with True show ?thesis by (subst Public_loop.simps, subst frames.simps) simp
    next
      case (Inr p)
      obtain rec sz where p: "p = (rec, sz)" by (cases p)
      from "1.IH" [OF True Inr p [symmetric]] True Inr p show ?thesis
        by (subst Public_loop.simps, subst frames.simps) simp
    qed
  qed
qed

lemma PublicCount_loop_frames:
  "fst (PublicCount_loop d offset c) = c + length (filter (\<lambda>(o', rec). Kind rec = S_PUB32) (frames d offset))"
proof (induction d offset c rule: PublicCount_loop.induct)
  case (1 d offset c)
  show ?case
  proof (cases "int offset < int (length d) - 4")
    case False
    then show ?thesis by (subst PublicCount_loop.simps, subst frames.simps) simp
  next
    case True
    show ?thesis
    proof (cases "ParseSymbolRecord (drop offset d)")
      case (Inl e)
      with True show ?thesis by (subst PublicCount_loop.simps, subst frames.simps) simp
    next
      case (Inr p)
      obtain rec sz where p: "p = (rec, sz)" by (cases p)
      from "1.IH" [OF True Inr p [symmetric]] True Inr p show ?thesis
        by (subst PublicCount_loop.simps, subst frames.simps) simp
    qed
  qed
qed

lemma NewNameIndex_loop_frames:
  "fst (NewNameIndex_loop r bs) = fold (\<lambda>(o', rec). add_name o' rec) (frames (r_data r) (r_offset r)) bs"
proof (induction r bs rule: NewNameIndex_loop.induct)
  case (1 r bs)
  have g: "(Remaining r > 4) = (int (r_offset r) < int (length (r_data r)) - 4)"
    by (auto simp: Remaining_def)
  show ?case
  proof (cases "Remaining r > 4")
    case False
    then show ?thesis using g by (subst NewNameIndex_loop.simps, subst frames.simps) simp
  next
    case True
    show ?thesis
    proof (cases "ParseSymbolRecord (drop (r_offset r) (r_data r))")
      case (Inl e)
      with True g show ?thesis by (subst NewNameIndex_loop.simps, subst frames.simps) simp
    next
      case (Inr p)
      obtain rec sz where p: "p = (rec, sz)" by (cases p)
      have "sz \<le> length (drop (r_offset r) (r_data r))"
        using ParseSymbolRecord_size(3) [of "drop (r_offset r) (r_data r)" rec sz] Inr p by simp
      then have sk: "snd (Skip sz r) = r\<lparr>r_offset := r_offset r + sz\<rparr>"
        using True by (auto simp: Skip_def Remaining_def split: if_splits)
      from "1.IH" [OF True refl Inr p [symmetric]] True g Inr p sk show ?thesis
        by (subst NewNameIndex_loop.simps, subst frames.simps) (simp add: Let_def)
    qed
  qed
qed


lemma ParseSymbolRecord_at:
  assumes "2 \<le> L" "offset + L + 2 \<le> length d" "L = le_nat (take 2 (drop offset d))"
  shows "ParseSymbolRecord (drop offset d) =
           Inr (\<lparr>Kind = Uint16 (drop (offset + 2) d), Data = take (L - 2) (drop (offset + 4) d)\<rparr>,
                L + 2)"
proof -
  have "ParseSymbolRecord (drop offset d) =
           Inr (\<lparr>Kind = Uint16 (drop 2 (drop offset d)),
                  Data = take (le_nat (take 2 (drop offset d)) - 2) (drop 4 (drop offset d))\<rparr>,
                le_nat (take 2 (drop offset d)) + 2)"
    using assms by (intro ParseSymbolRecord_framed) simp_all
  then show ?thesis by (simp add: assms(3) add.commute)
qed

text \<open>C5 (amended). While more than four bytes remain at the cursor (the guard of every
  iterator), a record that is well framed by its length field \<open>L\<close> (\<open>2 \<le> L\<close> and the
  \<open>L + 2\<close> bytes fit in the data) makes \<^verbatim>\<open>Public\<close>, \<^verbatim>\<open>PublicCount\<close> and the name-index build
  continue at \<open>offset + L + 2\<close>. The new cursor depends on the length field only: it is the same
  when \<^verbatim>\<open>ParsePublicSym32\<close> fails on the payload, in which case nothing is yielded and the
  following records are visited as before. Consequently all iterators (and the cached list
  built by \<^verbatim>\<open>loadPublicSymbols\<close>) traverse the same sequence of frames. \<^verbatim>\<open>PublicCount\<close> scans
  only while nothing is cached: it then counts the \<^verbatim>\<open>S_PUB32\<close> frames, decodable or not; once
  \<^verbatim>\<open>PublicCached\<close> has run it returns the length of the cached list, which holds only the
  publics whose payload decoded.\<close>

theorem iterators_advance_by_length_field:
  "(int offset < int (length d) - 4 \<longrightarrow> L = le_nat (take 2 (drop offset d)) \<longrightarrow> 2 \<le> L \<longrightarrow>
    offset + L + 2 \<le> length d \<longrightarrow>
    (let rec = \<lparr>Kind = Uint16 (drop (offset + 2) d), Data = take (L - 2) (drop (offset + 4) d)\<rparr>
     in Public_loop d offset acc = Public_loop d (offset + L + 2) (acc @ public_yield rec)
      \<and> (\<forall>e. ParsePublicSym32 (Data rec) = Inl e \<longrightarrow>
             Public_loop d offset acc = Public_loop d (offset + L + 2) acc)
      \<and> PublicCount_loop d offset c
          = PublicCount_loop d (offset + L + 2) (if Kind rec = S_PUB32 then c + 1 else c)
      \<and> NewNameIndex_loop \<lparr>r_data = d, r_offset = offset\<rparr> bs
          = NewNameIndex_loop \<lparr>r_data = d, r_offset = offset + L + 2\<rparr> (add_name offset rec bs)))
   \<and> (symRecordData st = Some d \<longrightarrow>
        Public st = concat (map (\<lambda>(o', rec). public_yield rec) (frames d 0))
      \<and> loadPublicSymbols st = Some (Public st)
      \<and> (publicSymbols st = None \<longrightarrow>
           PublicCount st = length (filter (\<lambda>(o', rec). Kind rec = S_PUB32) (frames d 0)))
      \<and> (\<not> publicSymbolsOnce st \<longrightarrow>
           fst (PublicCached st) = Some (Public st)
         \<and> PublicCount (snd (PublicCached st)) = length (Public st)))
   \<and> (\<forall>ps. publicSymbols st = Some ps \<longrightarrow> PublicCount st = length ps)
   \<and> buckets (NewNameIndex d) = fold (\<lambda>(o', rec). add_name o' rec) (frames d 0) (replicate 4096 [])"
proof -
  have adv: "(let rec = \<lparr>Kind = Uint16 (drop (offset + 2) d), Data = take (L - 2) (drop (offset + 4) d)\<rparr>
     in Public_loop d offset acc = Public_loop d (offset + L + 2) (acc @ public_yield rec)
      \<and> (\<forall>e. ParsePublicSym32 (Data rec) = Inl e \<longrightarrow>
             Public_loop d offset acc = Public_loop d (offset + L + 2) acc)
      \<and> PublicCount_loop d offset c
          = PublicCount_loop d (offset + L + 2) (if Kind rec = S_PUB32 then c + 1 else c)
      \<and> NewNameIndex_loop \<lparr>r_data = d, r_offset = offset\<rparr> bs
          = NewNameIndex_loop \<lparr>r_data = d, r_offset = offset + L + 2\<rparr> (add_name offset rec bs))"
    if g: "int offset < int (length d) - 4" and L: "L = le_nat (take 2 (drop offset d))"
      and f: "2 \<le> L" "offset + L + 2 \<le> length d"
  proof -
    define rec where "rec = \<lparr>Kind = Uint16 (drop (offset + 2) d), Data = take (L - 2) (drop (offset + 4) d)\<rparr>"
    have p: "ParseSymbolRecord (drop offset d) = Inr (rec, L + 2)"
      unfolding rec_def using f L by (rule ParseSymbolRecord_at)
    have 1: "Public_loop d offset acc = Public_loop d (offset + L + 2) (acc @ public_yield rec)"
      using g p by (subst Public_loop.simps) (simp add: add.assoc)
    have 2: "Public_loop d offset acc = Public_loop d (offset + L + 2) acc"
      if "ParsePublicSym32 (Data rec) = Inl e" for e
      using 1 that by (simp add: public_yield_def)
    have 3: "PublicCount_loop d offset c
          = PublicCount_loop d (offset + L + 2) (if Kind rec = S_PUB32 then c + 1 else c)"
      using g p by (subst PublicCount_loop.simps) (simp add: add.assoc)
    have rem: "Remaining \<lparr>r_data = d, r_offset = offset\<rparr> > 4"
      using g by (auto simp: Remaining_def)
    have sk: "snd (Skip (L + 2) \<lparr>r_data = d, r_offset = offset\<rparr>) = \<lparr>r_data = d, r_offset = offset + L + 2\<rparr>"
      using f by (simp add: Skip_def add.assoc)
    have 4: "NewNameIndex_loop \<lparr>r_data = d, r_offset = offset\<rparr> bs
          = NewNameIndex_loop \<lparr>r_data = d, r_offset = offset + L + 2\<rparr> (add_name offset rec bs)"
      using rem p sk by (subst NewNameIndex_loop.simps) (simp add: Let_def)
    from 1 2 3 4 show ?thesis unfolding Let_def rec_def [symmetric] by blast
  qed
  have pub: "Public st = concat (map (\<lambda>(o', rec). public_yield rec) (frames d 0))"
    if "symRecordData st = Some d"
    using that by (simp add: Public_def Public_loop_frames)
  have ld: "loadPublicSymbols st = Some (Public st)" if "symRecordData st = Some d"
    using that by (simp add: loadPublicSymbols_def Public_def)
  have cnt: "PublicCount st = length (filter (\<lambda>(o', rec). Kind rec = S_PUB32) (frames d 0))"
    if "symRecordData st = Some d" "publicSymbols st = None"
    using that by (simp add: PublicCount_def PublicCount_loop_frames)
  have cached: "fst (PublicCached st) = Some (Public st)
                \<and> PublicCount (snd (PublicCached st)) = length (Public st)"
    if "symRecordData st = Some d" "\<not> publicSymbolsOnce st"
    using that ld [OF that(1)] by (simp add: PublicCached_def PublicCount_def Let_def)
  have hit: "PublicCount st = length ps" if "publicSymbols st = Some ps" for ps
    using that by (simp add: PublicCount_def)
  have idx: "buckets (NewNameIndex d) = fold (\<lambda>(o', rec). add_name o' rec) (frames d 0) (replicate 4096 [])"
    by (simp add: NewNameIndex_def NewNameIndex_loop_frames NewReader_def)
  from adv pub ld cnt cached hit idx show ?thesis by blast
qed

text \<open>A stream of two \<^verbatim>\<open>S_PUB32\<close> records: the first has a two-byte payload that
  \<^verbatim>\<open>ParsePublicSym32\<close> rejects, the second is the public symbol \<^verbatim>\<open>a\<close> at 1:0x10.\<close>

definition ex_syms :: "byte list" where
  "ex_syms = [4, 0, 0x0E, 0x11, 0xAA, 0xBB,
              14, 0, 0x0E, 0x11, 0, 0, 0, 0, 0x10, 0, 0, 0, 1, 0, 0x61, 0]"

lemma ex_syms_eval:
  "Public_loop ex_syms 6 [] = ([\<lparr>ps_name = [0x61], ps_section = 1, ps_offset = 0x10, ps_flags = 0\<rparr>], 22)"
  "PublicCount_loop ex_syms 6 (Suc 0) = (2, 22)"
  by (simp_all add: ex_syms_def Public_loop.simps PublicCount_loop.simps ParseSymbolRecord_def
       ReadU16_def ReadU32_def NewReader_def Uint16_def Uint32_def Let_def public_yield_def
       S_PUB32_def ParsePublicSym32_def rbind_def rreturn_def ReadCString_def)

lemma ex_syms_frames:
  "frames ex_syms 0 = [(0, \<lparr>Kind = S_PUB32, Data = [0xAA, 0xBB]\<rparr>),
                       (6, \<lparr>Kind = S_PUB32, Data = [0, 0, 0, 0, 0x10, 0, 0, 0, 1, 0, 0x61, 0]\<rparr>)]"
  by (simp add: ex_syms_def frames.simps ParseSymbolRecord_def
       ReadU16_def NewReader_def Uint16_def Let_def S_PUB32_def)

lemma ex_syms_names:
  "getSymbolName \<lparr>Kind = S_PUB32, Data = [0xAA, 0xBB]\<rparr> = []"
  "getSymbolName \<lparr>Kind = S_PUB32, Data = [0, 0, 0, 0, 0x10, 0, 0, 0, 1, 0, 0x61, 0]\<rparr> = [0x61]"
  by (simp_all add: getSymbolName_def ParsePublicSym32_def rbind_def rreturn_def ReadU32_def
        ReadU16_def NewReader_def ReadCString_def Uint16_def Uint32_def Let_def)

theorem iterators_advance_by_length_field_witness:
  "Public_loop ex_syms 0 [] = Public_loop ex_syms 6 []
   \<and> fst (Public_loop ex_syms 0 []) = [\<lparr>ps_name = [0x61], ps_section = 1, ps_offset = 0x10, ps_flags = 0\<rparr>]
   \<and> PublicCount_loop ex_syms 0 0 = (2, 22)
   \<and> PublicCount (newSymbolTable (Some ex_syms)) = 2
   \<and> PublicCount (snd (PublicCached (newSymbolTable (Some ex_syms)))) = 1"
proof -
  note T = iterators_advance_by_length_field
             [where offset = 0 and d = ex_syms and L = 4 and acc = "[]" and c = 0 and bs = "[]"
                and st = "newSymbolTable (Some ex_syms)"]
  have st: "symRecordData (newSymbolTable (Some ex_syms)) = Some ex_syms"
    "publicSymbols (newSymbolTable (Some ex_syms)) = None"
    "\<not> publicSymbolsOnce (newSymbolTable (Some ex_syms))"
    by (simp_all add: newSymbolTable_def)
  have y: "public_yield \<lparr>Kind = S_PUB32, Data = [0xAA, 0xBB]\<rparr> = []"
    "public_yield \<lparr>Kind = S_PUB32, Data = [0, 0, 0, 0, 0x10, 0, 0, 0, 1, 0, 0x61, 0]\<rparr>
       = [\<lparr>ps_name = [0x61], ps_section = 1, ps_offset = 0x10, ps_flags = 0\<rparr>]"
    by (simp_all add: public_yield_def ParsePublicSym32_def rbind_def rreturn_def ReadU32_def
        ReadU16_def NewReader_def ReadCString_def Uint16_def Uint32_def Let_def)
  have c1: "PublicCount (newSymbolTable (Some ex_syms)) = 2"
    using T st by (simp add: ex_syms_frames)
  have c2: "PublicCount (snd (PublicCached (newSymbolTable (Some ex_syms)))) = 1"
    using T st by (simp add: ex_syms_frames y)
  have L: "(4::nat) = le_nat (take 2 (drop 0 ex_syms))" by (simp add: ex_syms_def)
  have g: "int 0 < int (length ex_syms) - 4" "(2::nat) \<le> 4" "0 + 4 + 2 \<le> length ex_syms"
    by (simp_all add: ex_syms_def)
  have bad: "ParsePublicSym32 (take (4 - 2) (drop (0 + 4) ex_syms)) = Inl ErrUnexpectedEOF"
    by (simp add: ex_syms_def ParsePublicSym32_def rbind_def ReadU32_def NewReader_def)
  have k: "Uint16 (drop (0 + 2) ex_syms) = S_PUB32"
    by (simp add: ex_syms_def Uint16_def S_PUB32_def)
  from T L g bad k
  have "Public_loop ex_syms 0 [] = Public_loop ex_syms 6 []
        \<and> PublicCount_loop ex_syms 0 0 = PublicCount_loop ex_syms 6 (Suc 0)"
    unfolding Let_def by auto
  then show ?thesis using c1 c2 by (simp add: ex_syms_eval)
qed

text \<open>Without the guard the statement fails: a last record of exactly four bytes (length field
  2, no payload) is well framed and accepted by \<^verbatim>\<open>ParseSymbolRecord\<close>, but no iterator visits
  it, so the cursor does not move.\<close>

theorem trailing_record_not_visited:
  "ParseSymbolRecord [2, 0, 0x0E, 0x11] = Inr (\<lparr>Kind = S_PUB32, Data = []\<rparr>, 4)
   \<and> PublicCount_loop [2, 0, 0x0E, 0x11] 0 0 = (0, 0)
   \<and> Public_loop [2, 0, 0x0E, 0x11] 0 [] = ([], 0)
   \<and> snd (NewNameIndex_loop (NewReader [2, 0, 0x0E, 0x11]) []) = NewReader [2, 0, 0x0E, 0x11]"
  by (simp add: ParseSymbolRecord_def ReadU16_def NewReader_def Uint16_def Let_def S_PUB32_def
        PublicCount_loop.simps Public_loop.simps NewNameIndex_loop.simps Remaining_def)


subsection \<open>Name index\<close>

text \<open>The hash as the documentation words it, on natural numbers with the reduction modulo
  \<open>2 ^ 32\<close> written out; \<^verbatim>\<open>hashName\<close> above is the source's \<^verbatim>\<open>uint32\<close> loop.\<close>

definition hash_spec :: "gostring \<Rightarrow> nat" where
  "hash_spec name = foldl (\<lambda>h b. (h * 31 + unat b) mod 2 ^ 32) 0 name"

lemma unat_hash_step: "unat ((h :: 32 word) * 31 + ucast (b :: byte)) = (unat h * 31 + unat b) mod 2 ^ 32"
proof -
  have "unat (ucast b :: 32 word) = unat b" by (simp add: unat_ucast_byte)
  then show ?thesis by (simp add: unat_word_ariths mod_simps)
qed

lemma unat_foldl_hash:
  "unat (foldl (\<lambda>hash b. hash * 31 + ucast b) (h :: 32 word) (name :: gostring))
     = foldl (\<lambda>h b. (h * 31 + unat b) mod 2 ^ 32) (unat h) name"
  by (induction name arbitrary: h) (simp_all add: unat_hash_step)

lemma unat_hashName: "unat (hashName name) = hash_spec name"
  using unat_foldl_hash [of 0 name] by (simp add: hashName_def hash_spec_def)

lemma bucket_lt: "unat ((h :: 32 word) mod 4096) < 4096"
  by (simp add: unat_mod)

lemma length_add_name [simp]: "length (add_name offset rec bs) = length bs"
  by (simp add: add_name_def Let_def)

lemma length_fold_add_name [simp]:
  "length (fold (\<lambda>(o', rec). add_name o' rec) fs bs) = length bs"
  by (induction fs arbitrary: bs) (auto simp: split_def)

definition entry_of :: "nat \<times> SymbolRecord \<Rightarrow> nameEntry" where
  "entry_of p = \<lparr>ne_name = getSymbolName (snd p), ne_symOffset = of_nat (fst p)\<rparr>"

definition in_bucket :: "nat \<Rightarrow> nat \<times> SymbolRecord \<Rightarrow> bool" where
  "in_bucket b p = (getSymbolName (snd p) \<noteq> []
                     \<and> unat (hashName (getSymbolName (snd p)) mod 4096) = b)"

lemma add_name_bucket:
  assumes "b < length bs"
  shows "add_name offset rec bs ! b = bs ! b @ map entry_of (filter (in_bucket b) [(offset, rec)])"
  using assms by (auto simp: add_name_def Let_def entry_of_def in_bucket_def nth_list_update)

lemma fold_add_name_bucket:
  assumes "b < length bs"
  shows "fold (\<lambda>(o', rec). add_name o' rec) fs bs ! b = bs ! b @ map entry_of (filter (in_bucket b) fs)"
  using assms
proof (induction fs arbitrary: bs)
  case Nil
  then show ?case by simp
next
  case (Cons p fs)
  obtain offset rec where p: "p = (offset, rec)" by (cases p)
  have "b < length (add_name offset rec bs)" using Cons.prems by simp
  from Cons.IH [OF this] add_name_bucket [OF Cons.prems, of offset rec]
  show ?case by (simp add: p)
qed

lemma FindByName_frames:
  "FindByName (NewNameIndex d) name =
     map (\<lambda>p. of_nat (fst p))
       (filter (\<lambda>p. name \<noteq> [] \<and> getSymbolName (snd p) = name) (frames d 0))"
proof -
  define b where "b = unat (hashName name mod 4096)"
  have bl: "b < length (replicate 4096 ([] :: nameEntry list))" by (simp add: b_def bucket_lt)
  have bk: "buckets (NewNameIndex d) ! b = map entry_of (filter (in_bucket b) (frames d 0))"
    using fold_add_name_bucket [OF bl, of "frames d 0"] bl
    by (simp add: NewNameIndex_def NewNameIndex_loop_frames NewReader_def)
  have nb: "numBuckets (NewNameIndex d) = 4096" by (simp add: NewNameIndex_def)
  have "FindByName (NewNameIndex d) name
          = map ne_symOffset (filter (\<lambda>e. ne_name e = name) (map entry_of (filter (in_bucket b) (frames d 0))))"
    unfolding FindByName_def Let_def nb using bk by (simp add: b_def)
  also have "\<dots> = map (\<lambda>p. of_nat (fst p))
       (filter (\<lambda>p. getSymbolName (snd p) = name \<and> in_bucket b p) (frames d 0))"
    by (simp add: filter_map comp_def entry_of_def conj_commute)
  also have "(\<lambda>p. getSymbolName (snd p) = name \<and> in_bucket b p)
               = (\<lambda>p. name \<noteq> [] \<and> getSymbolName (snd p) = name)"
    by (auto simp: in_bucket_def b_def fun_eq_iff)
  finally show ?thesis .
qed

lemma frames_record:
  assumes "(p, rec) \<in> set (frames d k)"
  shows "k \<le> p \<and> p < length d \<and> (\<exists>sz. ParseSymbolRecord (drop p d) = Inr (rec, sz))"
  using assms
proof (induction d k rule: frames.induct)
  case (1 d offset)
  show ?case
  proof (cases "int offset < int (length d) - 4")
    case False
    with "1.prems" show ?thesis by (subst (asm) frames.simps) simp
  next
    case True
    show ?thesis
    proof (cases "ParseSymbolRecord (drop offset d)")
      case (Inl e)
      with True "1.prems" show ?thesis by (subst (asm) frames.simps) simp
    next
      case (Inr q)
      obtain r0 sz where q: "q = (r0, sz)" by (cases q)
      from "1.prems" True Inr q
      have "(p, rec) = (offset, r0) \<or> (p, rec) \<in> set (frames d (offset + sz))"
        by (subst (asm) frames.simps) simp
      then show ?thesis
      proof
        assume "(p, rec) = (offset, r0)"
        with True Inr q show ?thesis by auto
      next
        assume "(p, rec) \<in> set (frames d (offset + sz))"
        from "1.IH" [OF True Inr q [symmetric] this] show ?thesis by auto
      qed
    qed
  qed
qed


text \<open>The symbols the table hands out (pdb/symbol.go). \<^verbatim>\<open>convertSymbolRecord\<close> turns a record
  into a \<^verbatim>\<open>Symbol\<close> for five groups of kinds and into \<^verbatim>\<open>nil\<close> for every other kind or when the
  payload does not decode; \<^verbatim>\<open>Name\<close> is the raw name the symbol carries. \<^verbatim>\<open>parseSymbolAt\<close> is what
  \<^verbatim>\<open>SymbolTable.FindByName\<close> and \<^verbatim>\<open>ByName\<close> apply to every offset the index returns.\<close>

record FunctionSymbol =
  fn_name :: gostring
  fn_section :: "16 word"
  fn_offset :: "32 word"
  fn_length :: "32 word"
  fn_typeIndex :: "32 word"

record DataSymbol =
  dat_name :: gostring
  dat_section :: "16 word"
  dat_offset :: "32 word"
  dat_typeIndex :: "32 word"

record UDTSymbol =
  uds_name :: gostring
  uds_typeIndex :: "32 word"

record ConstantSymbol =
  cns_name :: gostring
  cns_value :: "64 word"
  cns_typeIndex :: "32 word"

datatype Symbol =
    IsPublic PublicSymbol
  | IsFunction FunctionSymbol
  | IsData DataSymbol
  | IsUDT UDTSymbol
  | IsConstant ConstantSymbol

fun Name :: "Symbol \<Rightarrow> gostring" where
  "Name (IsPublic s) = ps_name s"
| "Name (IsFunction s) = fn_name s"
| "Name (IsData s) = dat_name s"
| "Name (IsUDT s) = uds_name s"
| "Name (IsConstant s) = cns_name s"

definition convertSymbolRecord :: "SymbolRecord \<Rightarrow> Symbol option" where
  "convertSymbolRecord rec =
     (if Kind rec = S_PUB32 then
        (case ParsePublicSym32 (Data rec) of
           Inl e \<Rightarrow> None
         | Inr sy \<Rightarrow> Some (IsPublic \<lparr>ps_name = pub_Name sy, ps_section = pub_Segment sy,
                                      ps_offset = pub_Offset sy, ps_flags = pub_Flags sy\<rparr>))
      else if Kind rec = S_GPROC32 \<or> Kind rec = S_LPROC32 \<or> Kind rec = S_GPROC32_ID
              \<or> Kind rec = S_LPROC32_ID then
        (case ParseProcSym (Data rec) of
           Inl e \<Rightarrow> None
         | Inr sy \<Rightarrow> Some (IsFunction \<lparr>fn_name = proc_Name sy, fn_section = proc_Segment sy,
                                        fn_offset = proc_CodeOffset sy, fn_length = proc_CodeSize sy,
                                        fn_typeIndex = proc_FunctionType sy\<rparr>))
      else if Kind rec = S_GDATA32 \<or> Kind rec = S_LDATA32 then
        (case ParseDataSym (Data rec) of
           Inl e \<Rightarrow> None
         | Inr sy \<Rightarrow> Some (IsData \<lparr>dat_name = data_Name sy, dat_section = data_Segment sy,
                                    dat_offset = data_Offset sy, dat_typeIndex = data_Type sy\<rparr>))
      else if Kind rec = S_UDT then
        (case ParseUDTSym (Data rec) of
           Inl e \<Rightarrow> None
         | Inr sy \<Rightarrow> Some (IsUDT \<lparr>uds_name = udt_Name sy, uds_typeIndex = udt_Type sy\<rparr>))
      else if Kind rec = S_CONSTANT then
        (case ParseConstantSym (Data rec) of
           Inl e \<Rightarrow> None
         | Inr sy \<Rightarrow> Some (IsConstant \<lparr>cns_name = const_Name sy, cns_value = const_Value sy,
                                        cns_typeIndex = const_Type sy\<rparr>))
      else None)"

definition parseSymbolAt :: "SymbolTable \<Rightarrow> 32 word \<Rightarrow> Symbol option" where
  "parseSymbolAt st offset =
     (case symRecordData st of
        None \<Rightarrow> None
      | Some d \<Rightarrow>
          if int (unat offset) \<ge> int (length d) then None
          else case ParseSymbolRecord (drop (unat offset) d) of
                 Inl e \<Rightarrow> None
               | Inr (rec, sz) \<Rightarrow> convertSymbolRecord rec)"

text \<open>Two kinds outside those five groups. \<^verbatim>\<open>ParseSymbol\<close> (symbols/parser.go) decodes them with
  \<^verbatim>\<open>ParseDataSym\<close>, so such a record carries a name.\<close>

definition S_LTHREAD32 :: "16 word" where "S_LTHREAD32 = 0x1112"
definition S_GTHREAD32 :: "16 word" where "S_GTHREAD32 = 0x1113"

text \<open>The key function of the index and the conversion agree: a record has a non-empty key
  exactly when it converts to a symbol with that non-empty name.\<close>

lemma getSymbolName_convert:
  "getSymbolName rec = (case convertSymbolRecord rec of Some sy \<Rightarrow> Name sy | None \<Rightarrow> [])"
  by (simp add: getSymbolName_def convertSymbolRecord_def split: sum.splits)

lemma convert_named:
  assumes "getSymbolName rec \<noteq> []"
  shows "\<exists>sy. convertSymbolRecord rec = Some sy \<and> Name sy = getSymbolName rec"
  using assms unfolding getSymbolName_convert [of rec] by (cases "convertSymbolRecord rec") simp_all

text \<open>C6 (amended). \<^verbatim>\<open>FindByName\<close> on the index built from a symbol-record stream returns, in
  stream order, the offsets of exactly the visited records whose key (\<^verbatim>\<open>getSymbolName\<close>) equals
  the queried name, provided the name is not empty; and the key of a record is the name of the
  symbol \<^verbatim>\<open>convertSymbolRecord\<close> builds from it (empty when it builds none). Hence every
  non-empty name of a symbol built from a visited record is found at the offset of that record,
  and (for streams shorter than \<open>2 ^ 32\<close> bytes, so that the stored \<^verbatim>\<open>uint32\<close> offsets are exact)
  the record at every returned offset parses, and \<^verbatim>\<open>parseSymbolAt\<close> yields there a symbol whose
  raw name is the queried name. The table has 4096 buckets, the hash is
  \<open>h := (h * 31 + b) mod 2 ^ 32\<close>, and every entry is stored in bucket \<open>h mod 4096\<close>.\<close>

theorem FindByName_sound_complete:
  "FindByName (NewNameIndex d) name =
     map (\<lambda>p. of_nat (fst p))
       (filter (\<lambda>p. name \<noteq> [] \<and> getSymbolName (snd p) = name) (frames d 0))
   \<and> getSymbolName rec = (case convertSymbolRecord rec of Some sy \<Rightarrow> Name sy | None \<Rightarrow> [])
   \<and> (\<forall>p \<in> set (frames d 0). \<forall>sy. convertSymbolRecord (snd p) = Some sy \<longrightarrow> Name sy \<noteq> [] \<longrightarrow>
          of_nat (fst p) \<in> set (FindByName (NewNameIndex d) (Name sy)))
   \<and> (length d < 2 ^ 32 \<longrightarrow>
        (\<forall>w \<in> set (FindByName (NewNameIndex d) name).
           (\<exists>rec sz. ParseSymbolRecord (drop (unat w) d) = Inr (rec, sz) \<and> getSymbolName rec = name)
         \<and> (\<exists>sy. parseSymbolAt (newSymbolTable (Some d)) w = Some sy \<and> Name sy = name)))
   \<and> numBuckets (NewNameIndex d) = 4096 \<and> length (buckets (NewNameIndex d)) = 4096
   \<and> unat (hashName name) = hash_spec name
   \<and> (\<forall>e \<in> set (buckets (NewNameIndex d) ! b). b < 4096 \<longrightarrow> hash_spec (ne_name e) mod 4096 = b)"
proof -
  note F = FindByName_frames [of d name]
  have A: "of_nat (fst p) \<in> set (FindByName (NewNameIndex d) (Name sy))"
    if "p \<in> set (frames d 0)" "convertSymbolRecord (snd p) = Some sy" "Name sy \<noteq> []" for p sy
  proof -
    have "getSymbolName (snd p) = Name sy" using that(2) by (simp add: getSymbolName_convert)
    with that(1,3) show ?thesis unfolding FindByName_frames [of d "Name sy"] by auto
  qed
  have B: "(\<exists>rec sz. ParseSymbolRecord (drop (unat w) d) = Inr (rec, sz) \<and> getSymbolName rec = name)
         \<and> (\<exists>sy. parseSymbolAt (newSymbolTable (Some d)) w = Some sy \<and> Name sy = name)"
    if len: "length d < 2 ^ 32" and w: "w \<in> set (FindByName (NewNameIndex d) name)" for w
  proof -
    from w obtain p rec where p: "(p, rec) \<in> set (frames d 0)" "getSymbolName rec = name"
      "w = of_nat p" "name \<noteq> []" unfolding F by auto
    from frames_record [OF p(1)] obtain sz where
      q: "p < length d" "ParseSymbolRecord (drop p d) = Inr (rec, sz)" by auto
    have u: "unat w = p" using q(1) len by (simp add: p(3) unat_of_nat)
    from convert_named [of rec] p(2,4) obtain sy where
      sy: "convertSymbolRecord rec = Some sy" "Name sy = name" by auto
    have "parseSymbolAt (newSymbolTable (Some d)) w = Some sy"
      using q sy(1) by (simp add: parseSymbolAt_def newSymbolTable_def u)
    then show ?thesis using q(2) p(2) sy(2) u by auto
  qed
  have C: "numBuckets (NewNameIndex d) = 4096 \<and> length (buckets (NewNameIndex d)) = 4096"
    by (simp add: NewNameIndex_def NewNameIndex_loop_frames)
  have D: "hash_spec (ne_name e) mod 4096 = b"
    if "e \<in> set (buckets (NewNameIndex d) ! b)" "b < 4096" for e
  proof -
    have bl: "b < length (replicate 4096 ([] :: nameEntry list))" using that(2) by simp
    have "buckets (NewNameIndex d) ! b = map entry_of (filter (in_bucket b) (frames d 0))"
      using fold_add_name_bucket [OF bl, of "frames d 0"] bl
      by (simp add: NewNameIndex_def NewNameIndex_loop_frames NewReader_def)
    with that(1) obtain p where "in_bucket b p" "e = entry_of p" by auto
    then show ?thesis
      by (simp add: in_bucket_def entry_of_def unat_mod unat_hashName)
  qed
  from F A B C D unat_hashName [of name] getSymbolName_convert [of rec] show ?thesis by blast
qed

text \<open>Two names occur in a stream and are not found. The empty name is never indexed
  (\<^verbatim>\<open>if name != ""\<close> in \<^verbatim>\<open>NewNameIndex\<close>): a public symbol whose name is the empty string is listed
  by \<^verbatim>\<open>Public\<close> but not found by \<^verbatim>\<open>FindByName\<close>. And \<^verbatim>\<open>getSymbolName\<close> gives a name only to the
  kinds \<^verbatim>\<open>convertSymbolRecord\<close> converts: the \<^verbatim>\<open>S_GTHREAD32\<close> record below is visited by the index
  build and \<^verbatim>\<open>ParseDataSym\<close> decodes its name \<^verbatim>\<open>t\<close>, but looking up \<^verbatim>\<open>t\<close> returns nothing.\<close>

definition ex_noname :: "byte list" where
  "ex_noname = [13, 0, 0x0E, 0x11, 0, 0, 0, 0, 0x10, 0, 0, 0, 1, 0, 0]"

definition ex_tls :: "byte list" where
  "ex_tls = [14, 0, 0x13, 0x11, 0x74, 0, 0, 0, 0x10, 0, 0, 0, 1, 0, 0x74, 0]"

lemma ex_tls_frames:
  "frames ex_tls 0 = [(0, \<lparr>Kind = S_GTHREAD32, Data = [0x74, 0, 0, 0, 0x10, 0, 0, 0, 1, 0, 0x74, 0]\<rparr>)]"
  by (simp add: ex_tls_def frames.simps ParseSymbolRecord_def
       ReadU16_def NewReader_def Uint16_def Let_def S_GTHREAD32_def)

lemma ex_tls_name:
  "getSymbolName \<lparr>Kind = S_GTHREAD32, Data = [0x74, 0, 0, 0, 0x10, 0, 0, 0, 1, 0, 0x74, 0]\<rparr> = []"
  by (simp add: getSymbolName_def S_GTHREAD32_def S_PUB32_def S_GPROC32_def S_LPROC32_def
        S_GPROC32_ID_def S_LPROC32_ID_def S_GDATA32_def S_LDATA32_def S_UDT_def S_CONSTANT_def)

theorem FindByName_misses_names:
  "Public (newSymbolTable (Some ex_noname)) = [\<lparr>ps_name = [], ps_section = 1, ps_offset = 0x10, ps_flags = 0\<rparr>]
   \<and> FindByName (NewNameIndex ex_noname) [] = []
   \<and> frames ex_tls 0 = [(0, \<lparr>Kind = S_GTHREAD32, Data = [0x74, 0, 0, 0, 0x10, 0, 0, 0, 1, 0, 0x74, 0]\<rparr>)]
   \<and> ParseDataSym [0x74, 0, 0, 0, 0x10, 0, 0, 0, 1, 0, 0x74, 0]
        = Inr \<lparr>data_Type = 0x74, data_Offset = 0x10, data_Segment = 1, data_Name = [0x74]\<rparr>
   \<and> FindByName (NewNameIndex ex_tls) [0x74] = []"
proof -
  have "Public (newSymbolTable (Some ex_noname)) = [\<lparr>ps_name = [], ps_section = 1, ps_offset = 0x10, ps_flags = 0\<rparr>]"
    by (simp add: Public_def newSymbolTable_def ex_noname_def Public_loop.simps ParseSymbolRecord_def
       ReadU16_def ReadU32_def NewReader_def Uint16_def Uint32_def Let_def public_yield_def
       S_PUB32_def ParsePublicSym32_def rbind_def rreturn_def ReadCString_def)
  moreover have "FindByName (NewNameIndex ex_noname) [] = []"
    by (simp add: FindByName_frames)
  moreover have "ParseDataSym [0x74, 0, 0, 0, 0x10, 0, 0, 0, 1, 0, 0x74, 0]
        = Inr \<lparr>data_Type = 0x74, data_Offset = 0x10, data_Segment = 1, data_Name = [0x74]\<rparr>"
    by (simp add: ParseDataSym_def rbind_def rreturn_def ReadU32_def
        ReadU16_def NewReader_def ReadCString_def Uint16_def Uint32_def Let_def)
  moreover have "FindByName (NewNameIndex ex_tls) [0x74] = []"
    by (simp add: FindByName_frames ex_tls_frames ex_tls_name)
  ultimately show ?thesis using ex_tls_frames by simp
qed

theorem FindByName_sound_complete_witness:
  "FindByName (NewNameIndex ex_syms) [0x61] = [6]
   \<and> length ex_syms < 2 ^ 32
   \<and> (\<exists>rec sz. ParseSymbolRecord (drop 6 ex_syms) = Inr (rec, sz) \<and> getSymbolName rec = [0x61])
   \<and> (\<exists>sy. parseSymbolAt (newSymbolTable (Some ex_syms)) 6 = Some sy \<and> Name sy = [0x61])
   \<and> hash_spec [0x61] mod 4096 = 97"
proof -
  note T = FindByName_sound_complete
             [where d = ex_syms and name = "[0x61]" and b = 97 and rec = "\<lparr>Kind = 0, Data = []\<rparr>"]
  have F: "FindByName (NewNameIndex ex_syms) [0x61] = [6]"
    using T by (simp add: ex_syms_frames ex_syms_names)
  have len: "length ex_syms < 2 ^ 32" by (simp add: ex_syms_def)
  have "(\<exists>rec sz. ParseSymbolRecord (drop (unat (6 :: 32 word)) ex_syms) = Inr (rec, sz)
           \<and> getSymbolName rec = [0x61])
        \<and> (\<exists>sy. parseSymbolAt (newSymbolTable (Some ex_syms)) 6 = Some sy \<and> Name sy = [0x61])"
    using T len unfolding F by simp
  moreover have "hash_spec [0x61] mod 4096 = 97" by (simp add: hash_spec_def)
  ultimately show ?thesis using F len by simp
qed



subsection \<open>Address index\<close>

text \<open>\<^verbatim>\<open>NewAddressIndex\<close> (symbols/psi.go) walks the address map of the public symbol index. An
  offset is skipped when fewer than 10 bytes follow it, when the record there does not parse,
  when it is not an \<^verbatim>\<open>S_PUB32\<close>, or when its payload does not decode; \<open>address_entry\<close> is one
  turn of that loop. The entries are then sorted with \<^verbatim>\<open>sort.Slice\<close>, which is not stable and
  whose code is not part of this repository: it is a parameter of the model, and the theorem
  assumes of it only what its contract gives on this input: the result holds the same entries
  (it is a permutation of them) and no entry in it is less than an earlier one.\<close>

record SymbolAddress =
  sa_Section :: "16 word"
  sa_Offset :: "32 word"
  sa_SymOffset :: "32 word"

record AddressIndex =
  entries :: "SymbolAddress list"

definition address_entry :: "byte list \<Rightarrow> 32 word \<Rightarrow> SymbolAddress list" where
  "address_entry symData symOffset =
     (if int (unat symOffset) + 10 > int (length symData) then []
      else case ParseSymbolRecord (drop (unat symOffset) symData) of
             Inl e \<Rightarrow> []
           | Inr (rec, sz) \<Rightarrow>
               if Kind rec \<noteq> S_PUB32 then []
               else case ParsePublicSym32 (Data rec) of
                      Inl e \<Rightarrow> []
                    | Inr sy \<Rightarrow> [\<lparr>sa_Section = pub_Segment sy, sa_Offset = pub_Offset sy,
                                  sa_SymOffset = symOffset\<rparr>])"

definition address_entries :: "32 word list \<Rightarrow> byte list \<Rightarrow> SymbolAddress list" where
  "address_entries addrMap symData = concat (map (address_entry symData) addrMap)"

definition addr_less :: "SymbolAddress \<Rightarrow> SymbolAddress \<Rightarrow> bool" where
  "addr_less a b = (if sa_Section a \<noteq> sa_Section b then sa_Section a < sa_Section b
                    else sa_Offset a < sa_Offset b)"

definition NewAddressIndex ::
  "((SymbolAddress \<Rightarrow> SymbolAddress \<Rightarrow> bool) \<Rightarrow> SymbolAddress list \<Rightarrow> SymbolAddress list)
     \<Rightarrow> 32 word list \<Rightarrow> byte list \<Rightarrow> AddressIndex" where
  "NewAddressIndex sort_Slice addrMap symData =
     \<lparr>entries = sort_Slice addr_less (address_entries addrMap symData)\<rparr>"

text \<open>\<^verbatim>\<open>sort.Search(n, f)\<close>: the binary search of the Go library, \<^verbatim>\<open>i, j := 0, n\<close>,
  \<^verbatim>\<open>h := (i + j) / 2\<close>, \<^verbatim>\<open>if !f(h) { i = h + 1 } else { j = h }\<close>, until \<^verbatim>\<open>i >= j\<close>.\<close>

function sort_Search_loop :: "(nat \<Rightarrow> bool) \<Rightarrow> nat \<Rightarrow> nat \<Rightarrow> nat" where
  "sort_Search_loop f i j =
     (if i < j then
        (let h = (i + j) div 2 in
         if \<not> f h then sort_Search_loop f (h + 1) j else sort_Search_loop f i h)
      else i)"
  by pat_completeness auto
termination
  by (relation "measure (\<lambda>(f, i, j). j - i)") auto

declare sort_Search_loop.simps [simp del]

definition sort_Search :: "nat \<Rightarrow> (nat \<Rightarrow> bool) \<Rightarrow> nat" where
  "sort_Search n f = sort_Search_loop f 0 n"

definition FindByAddress :: "AddressIndex \<Rightarrow> 16 word \<Rightarrow> 32 word \<Rightarrow> 32 word \<times> bool \<times> bool" where
  "FindByAddress idx section offset =
     (if length (entries idx) = 0 then (0, False, False)
      else
        let i = sort_Search (length (entries idx))
                  (\<lambda>i. if sa_Section (entries idx ! i) \<noteq> section
                        then sa_Section (entries idx ! i) > section
                        else sa_Offset (entries idx ! i) \<ge> offset)
        in if i < length (entries idx) \<and> sa_Section (entries idx ! i) = section
                \<and> sa_Offset (entries idx ! i) = offset
           then (sa_SymOffset (entries idx ! i), True, True)
           else if i > 0 \<and> sa_Section (entries idx ! (i - 1)) = section
           then (sa_SymOffset (entries idx ! (i - 1)), False, True)
           else (0, False, False))"

text \<open>The order of the index is the lexicographic order on the pair (section, offset).\<close>

definition addr_key :: "SymbolAddress \<Rightarrow> 16 word \<times> 32 word" where
  "addr_key e = (sa_Section e, sa_Offset e)"

lemma addr_less_key: "addr_less a b \<longleftrightarrow> addr_key a < addr_key b"
  by (auto simp: addr_less_def addr_key_def)

lemma sort_Search_loop_correct:
  assumes "\<And>a b. a \<le> b \<Longrightarrow> b < n \<Longrightarrow> f a \<Longrightarrow> f b"
    and "i \<le> j" "j \<le> n" "\<And>k. k < i \<Longrightarrow> \<not> f k" "\<And>k. j \<le> k \<Longrightarrow> k < n \<Longrightarrow> f k"
  shows "sort_Search_loop f i j \<le> n
         \<and> (\<forall>k < sort_Search_loop f i j. \<not> f k)
         \<and> (\<forall>k. sort_Search_loop f i j \<le> k \<longrightarrow> k < n \<longrightarrow> f k)"
  using assms
proof (induction f i j rule: sort_Search_loop.induct)
  case (1 f i j)
  note mono = "1.prems"(1)
  show ?case
  proof (cases "i < j")
    case False
    then have "sort_Search_loop f i j = i" by (subst sort_Search_loop.simps) simp
    moreover have "i = j" using False "1.prems"(2) by simp
    ultimately show ?thesis using "1.prems" by auto
  next
    case True
    define h where "h = (i + j) div 2"
    have hb: "i \<le> h" "h < j" using True by (simp_all add: h_def)
    show ?thesis
    proof (cases "f h")
      case False
      have eq: "sort_Search_loop f i j = sort_Search_loop f (h + 1) j"
        using True False by (subst sort_Search_loop.simps) (simp add: h_def Let_def)
      have nf: "\<not> f k" if "k < h + 1" for k
      proof
        assume fk: "f k"
        have "k \<le> h" "h < n" using that hb "1.prems"(3) by simp_all
        then have "f h" using fk by (rule mono)
        with False show False by simp
      qed
      have "sort_Search_loop f (h + 1) j \<le> n
         \<and> (\<forall>k < sort_Search_loop f (h + 1) j. \<not> f k)
         \<and> (\<forall>k. sort_Search_loop f (h + 1) j \<le> k \<longrightarrow> k < n \<longrightarrow> f k)"
      proof (rule "1.IH"(1) [OF True h_def False mono])
        show "h + 1 \<le> j" using hb by simp
        show "j \<le> n" by (rule "1.prems"(3))
        show "\<And>k. k < h + 1 \<Longrightarrow> \<not> f k" by (rule nf)
        show "\<And>k. j \<le> k \<Longrightarrow> k < n \<Longrightarrow> f k" by (rule "1.prems"(5))
      qed
      then show ?thesis unfolding eq .
    next
      case fh: True
      have eq: "sort_Search_loop f i j = sort_Search_loop f i h"
        using True fh by (subst sort_Search_loop.simps) (simp add: h_def Let_def)
      have ge: "f k" if "h \<le> k" "k < n" for k using mono [OF that fh] .
      have "sort_Search_loop f i h \<le> n
         \<and> (\<forall>k < sort_Search_loop f i h. \<not> f k)
         \<and> (\<forall>k. sort_Search_loop f i h \<le> k \<longrightarrow> k < n \<longrightarrow> f k)"
      proof (rule "1.IH"(2) [OF True h_def _ mono])
        show "\<not> \<not> f h" using fh by simp
        show "i \<le> h" by (rule hb(1))
        show "h \<le> n" using hb "1.prems"(3) by simp
        show "\<And>k. k < i \<Longrightarrow> \<not> f k" by (rule "1.prems"(4))
        show "\<And>k. h \<le> k \<Longrightarrow> k < n \<Longrightarrow> f k" by (rule ge)
      qed
      then show ?thesis unfolding eq .
    qed
  qed
qed

lemma sorted_key_nth:
  assumes "sorted_wrt (\<lambda>a b. \<not> addr_less b a) es" "a \<le> b" "b < length es"
  shows "addr_key (es ! a) \<le> addr_key (es ! b)"
proof (cases "a = b")
  case True
  then show ?thesis by simp
next
  case False
  then have "a < b" using assms(2) by simp
  from sorted_wrt_nth_less [OF assms(1) this assms(3)]
  show ?thesis by (simp add: addr_less_key not_less)
qed


definition addr_pred :: "SymbolAddress list \<Rightarrow> 16 word \<Rightarrow> 32 word \<Rightarrow> nat \<Rightarrow> bool" where
  "addr_pred es section offset i =
     (if sa_Section (es ! i) \<noteq> section then sa_Section (es ! i) > section
      else sa_Offset (es ! i) \<ge> offset)"

lemma addr_pred_key: "addr_pred es section offset i \<longleftrightarrow> (section, offset) \<le> addr_key (es ! i)"
  by (auto simp: addr_pred_def addr_key_def)

lemma sort_Search_sorted:
  assumes "sorted_wrt (\<lambda>a b. \<not> addr_less b a) es"
    and r: "r = sort_Search (length es) (addr_pred es section offset)"
  shows "r \<le> length es"
    and "\<And>k. k < r \<Longrightarrow> addr_key (es ! k) < (section, offset)"
    and "\<And>k. r \<le> k \<Longrightarrow> k < length es \<Longrightarrow> (section, offset) \<le> addr_key (es ! k)"
proof -
  have mono: "addr_pred es section offset b"
    if "a \<le> b" "b < length es" "addr_pred es section offset a" for a b
    using sorted_key_nth [OF assms(1) that(1,2)] that(3) unfolding addr_pred_key by (rule order_trans [rotated])
  have "sort_Search_loop (addr_pred es section offset) 0 (length es) \<le> length es
         \<and> (\<forall>k < sort_Search_loop (addr_pred es section offset) 0 (length es).
               \<not> addr_pred es section offset k)
         \<and> (\<forall>k. sort_Search_loop (addr_pred es section offset) 0 (length es) \<le> k
               \<longrightarrow> k < length es \<longrightarrow> addr_pred es section offset k)"
  proof (rule sort_Search_loop_correct
                [where f = "addr_pred es section offset" and n = "length es" and i = 0
                   and j = "length es"])
    show "\<And>a b. a \<le> b \<Longrightarrow> b < length es \<Longrightarrow> addr_pred es section offset a
                 \<Longrightarrow> addr_pred es section offset b"
      by (rule mono)
  qed simp_all
  then have R: "r \<le> length es" "\<forall>k<r. \<not> addr_pred es section offset k"
    "\<forall>k. r \<le> k \<longrightarrow> k < length es \<longrightarrow> addr_pred es section offset k"
    unfolding r sort_Search_def by blast+
  show "r \<le> length es" by (rule R(1))
  show "addr_key (es ! k) < (section, offset)" if "k < r" for k
  proof -
    have "\<not> addr_pred es section offset k" using R(2) that by blast
    then show ?thesis by (simp only: addr_pred_key not_le)
  qed
  show "(section, offset) \<le> addr_key (es ! k)" if "r \<le> k" "k < length es" for k
  proof -
    have "addr_pred es section offset k" using R(3) that by blast
    then show ?thesis by (simp only: addr_pred_key)
  qed
qed

text \<open>An entry of the section whose offset is the largest one not above the queried offset.\<close>

definition containing :: "SymbolAddress list \<Rightarrow> 16 word \<Rightarrow> 32 word \<Rightarrow> SymbolAddress \<Rightarrow> bool" where
  "containing es section offset e =
     (e \<in> set es \<and> sa_Section e = section \<and> sa_Offset e \<le> offset
      \<and> (\<forall>e' \<in> set es. sa_Section e' = section \<and> sa_Offset e' \<le> offset
             \<longrightarrow> sa_Offset e' \<le> sa_Offset e))"

lemma FindByAddress_sorted:
  assumes srt: "sorted_wrt (\<lambda>a b. \<not> addr_less b a) es"
  shows "case FindByAddress \<lparr>entries = es\<rparr> section offset of
           (symOffset, exact, found) \<Rightarrow>
             (found \<longleftrightarrow> (\<exists>e \<in> set es. sa_Section e = section \<and> sa_Offset e \<le> offset))
           \<and> (found \<longrightarrow> (\<exists>e. containing es section offset e \<and> symOffset = sa_SymOffset e
                              \<and> (exact \<longleftrightarrow> sa_Offset e = offset)))
           \<and> (\<not> found \<longrightarrow> symOffset = 0 \<and> \<not> exact)"
proof -
  define r where "r = sort_Search (length es) (addr_pred es section offset)"
  note S = sort_Search_sorted [OF srt r_def]
  have rr: "sort_Search (length es)
              (\<lambda>i. if sa_Section (es ! i) \<noteq> section then sa_Section (es ! i) > section
                    else sa_Offset (es ! i) \<ge> offset) = r"
    unfolding r_def addr_pred_def [abs_def] ..
  have F: "FindByAddress \<lparr>entries = es\<rparr> section offset =
     (if length es = 0 then (0, False, False)
      else if r < length es \<and> sa_Section (es ! r) = section \<and> sa_Offset (es ! r) = offset
           then (sa_SymOffset (es ! r), True, True)
           else if r > 0 \<and> sa_Section (es ! (r - 1)) = section
           then (sa_SymOffset (es ! (r - 1)), False, True)
           else (0, False, False))"
    unfolding FindByAddress_def Let_def by (simp only: AddressIndex.select_convs rr)
  have cand_lt: "k < r" 
    if nA: "\<not> (r < length es \<and> sa_Section (es ! r) = section \<and> sa_Offset (es ! r) = offset)"
      and k: "k < length es" "sa_Section (es ! k) = section" "sa_Offset (es ! k) \<le> offset" for k
  proof (rule ccontr)
    assume "\<not> k < r"
    then have rk: "r \<le> k" by simp
    have "(section, offset) \<le> addr_key (es ! k)" using S(3) [OF rk k(1)] .
    then have ko: "sa_Offset (es ! k) = offset" using k(2,3) by (auto simp: addr_key_def)
    have "addr_key (es ! r) \<le> addr_key (es ! k)" by (rule sorted_key_nth [OF srt rk k(1)])
    moreover have "(section, offset) \<le> addr_key (es ! r)" using S(3) [of r] rk k(1) by simp
    ultimately have "addr_key (es ! r) = (section, offset)"
      using ko k(2) by (auto simp: addr_key_def)
    with nA rk k(1) show False by (auto simp: addr_key_def)
  qed
  consider (empty) "length es = 0"
    | (A) "length es \<noteq> 0" "r < length es" "sa_Section (es ! r) = section" "sa_Offset (es ! r) = offset"
    | (B) "length es \<noteq> 0" "\<not> (r < length es \<and> sa_Section (es ! r) = section \<and> sa_Offset (es ! r) = offset)"
          "r > 0" "sa_Section (es ! (r - 1)) = section"
    | (C) "length es \<noteq> 0" "\<not> (r < length es \<and> sa_Section (es ! r) = section \<and> sa_Offset (es ! r) = offset)"
          "\<not> (r > 0 \<and> sa_Section (es ! (r - 1)) = section)"
    by blast
  then show ?thesis
  proof cases
    case empty
    have res: "FindByAddress \<lparr>entries = es\<rparr> section offset = (0, False, False)"
      unfolding F using empty by simp
    show ?thesis unfolding res using empty by simp
  next
    case A
    have res: "FindByAddress \<lparr>entries = es\<rparr> section offset = (sa_SymOffset (es ! r), True, True)"
      using A by (simp add: F)
    have c: "containing es section offset (es ! r)"
      using A by (auto simp: containing_def)
    then have "\<exists>e \<in> set es. sa_Section e = section \<and> sa_Offset e \<le> offset"
      by (auto simp: containing_def)
    moreover have "\<exists>e. containing es section offset e \<and> sa_SymOffset (es ! r) = sa_SymOffset e
                      \<and> (True \<longleftrightarrow> sa_Offset e = offset)"
      using c A(4) by blast
    ultimately show ?thesis unfolding res by simp
  next
    case B
    have res: "FindByAddress \<lparr>entries = es\<rparr> section offset = (sa_SymOffset (es ! (r - 1)), False, True)"
      using B by (simp add: F)
    have r1: "r - 1 < r" "r - 1 < length es" using B(3) S(1) by simp_all
    have lt: "addr_key (es ! (r - 1)) < (section, offset)" using S(2) [OF r1(1)] .
    then have off: "sa_Offset (es ! (r - 1)) < offset" using B(4) by (auto simp: addr_key_def)
    have mx: "sa_Offset e' \<le> sa_Offset (es ! (r - 1))"
      if e': "e' \<in> set es" "sa_Section e' = section" "sa_Offset e' \<le> offset" for e'
    proof -
      from e'(1) obtain k where k: "k < length es" "e' = es ! k" by (auto simp: in_set_conv_nth)
      have "k < r" using cand_lt [OF B(2) k(1)] e'(2,3) k(2) by simp
      then have "k \<le> r - 1" by simp
      from sorted_key_nth [OF srt this r1(2)] show ?thesis
        using e'(2) B(4) k(2) by (auto simp: addr_key_def)
    qed
    have c: "containing es section offset (es ! (r - 1))"
      using r1(2) B(4) off mx by (auto simp: containing_def)
    then have "\<exists>e \<in> set es. sa_Section e = section \<and> sa_Offset e \<le> offset"
      by (auto simp: containing_def)
    moreover have "\<exists>e. containing es section offset e \<and> sa_SymOffset (es ! (r - 1)) = sa_SymOffset e
                      \<and> (False \<longleftrightarrow> sa_Offset e = offset)"
      using c off by (intro exI [of _ "es ! (r - 1)"]) auto
    ultimately show ?thesis unfolding res by simp
  next
    case C
    have res: "FindByAddress \<lparr>entries = es\<rparr> section offset = (0, False, False)"
      using C by (simp add: F)
    have "\<not> (\<exists>e \<in> set es. sa_Section e = section \<and> sa_Offset e \<le> offset)"
    proof
      assume "\<exists>e \<in> set es. sa_Section e = section \<and> sa_Offset e \<le> offset"
      then obtain k where k: "k < length es" "sa_Section (es ! k) = section"
        "sa_Offset (es ! k) \<le> offset" by (auto simp: in_set_conv_nth)
      have kr: "k < r" by (rule cand_lt [OF C(2) k])
      then have r0: "r > 0" "k \<le> r - 1" "r - 1 < r" "r - 1 < length es" using S(1) by simp_all
      have "addr_key (es ! k) \<le> addr_key (es ! (r - 1))" by (rule sorted_key_nth [OF srt r0(2,4)])
      moreover have "addr_key (es ! (r - 1)) < (section, offset)" using S(2) [OF r0(3)] .
      ultimately have "sa_Section (es ! (r - 1)) = section"
        using k(2) by (auto simp: addr_key_def)
      with C(3) r0(1) show False by simp
    qed
    then show ?thesis unfolding res by simp
  qed
qed


lemma address_entry_sound:
  assumes "e \<in> set (address_entry symData symOffset)"
  shows "sa_SymOffset e = symOffset \<and> unat symOffset + 10 \<le> length symData
         \<and> (\<exists>rec sz sy. ParseSymbolRecord (drop (unat symOffset) symData) = Inr (rec, sz)
                \<and> Kind rec = S_PUB32 \<and> ParsePublicSym32 (Data rec) = Inr sy
                \<and> sa_Section e = pub_Segment sy \<and> sa_Offset e = pub_Offset sy)"
proof -
  have g: "\<not> (int (unat symOffset) + 10 > int (length symData))"
    using assms by (auto simp: address_entry_def split: if_splits)
  then have g': "unat symOffset + 10 \<le> length symData" by linarith
  obtain rec sz where p: "ParseSymbolRecord (drop (unat symOffset) symData) = Inr (rec, sz)"
    using assms g by (cases "ParseSymbolRecord (drop (unat symOffset) symData)")
      (auto simp: address_entry_def)
  have k: "Kind rec = S_PUB32"
    using assms g p by (auto simp: address_entry_def split: if_splits)
  obtain sy where q: "ParsePublicSym32 (Data rec) = Inr sy"
    using assms g p k by (cases "ParsePublicSym32 (Data rec)") (auto simp: address_entry_def)
  have "e = \<lparr>sa_Section = pub_Segment sy, sa_Offset = pub_Offset sy, sa_SymOffset = symOffset\<rparr>"
    using assms g p k q by (simp add: address_entry_def)
  then show ?thesis using g' p k q by simp
qed

lemma address_entries_sound:
  assumes "e \<in> set (address_entries addrMap symData)"
  shows "sa_SymOffset e \<in> set addrMap \<and> unat (sa_SymOffset e) + 10 \<le> length symData
         \<and> (\<exists>rec sz sy. ParseSymbolRecord (drop (unat (sa_SymOffset e)) symData) = Inr (rec, sz)
                \<and> Kind rec = S_PUB32 \<and> ParsePublicSym32 (Data rec) = Inr sy
                \<and> sa_Section e = pub_Segment sy \<and> sa_Offset e = pub_Offset sy)"
proof -
  from assms obtain symOffset where o: "symOffset \<in> set addrMap"
    "e \<in> set (address_entry symData symOffset)"
    by (auto simp: address_entries_def)
  from address_entry_sound [OF o(2)] o(1) show ?thesis by auto
qed

lemma address_entries_parse:
  assumes "e \<in> set (address_entries addrMap symData)"
  shows "\<exists>ps. parseSymbolAt (newSymbolTable (Some symData)) (sa_SymOffset e) = Some (IsPublic ps)
              \<and> ps_section ps = sa_Section e \<and> ps_offset ps = sa_Offset e"
proof -
  from address_entries_sound [OF assms] obtain rec sz sy where
    a: "unat (sa_SymOffset e) + 10 \<le> length symData"
       "ParseSymbolRecord (drop (unat (sa_SymOffset e)) symData) = Inr (rec, sz)"
       "Kind rec = S_PUB32" "ParsePublicSym32 (Data rec) = Inr sy"
       "sa_Section e = pub_Segment sy" "sa_Offset e = pub_Offset sy"
    by blast
  have "\<not> int (length symData) \<le> int (unat (sa_SymOffset e))" using a(1) by linarith
  then show ?thesis
    using a(2-) by (simp add: parseSymbolAt_def newSymbolTable_def convertSymbolRecord_def)
qed

text \<open>C2. On the index built from an address map and a symbol-record stream,
  \<^verbatim>\<open>FindByAddress\<close> reports found exactly when some entry has the queried section and an offset
  not above the queried offset; it then returns the stream offset of such an entry with the
  largest offset, and \<open>exact\<close> is true exactly when that offset equals the queried one. When
  nothing is found it returns 0 and not exact. The entries are ascending by (section, offset);
  each comes from an offset of the address map at which an \<^verbatim>\<open>S_PUB32\<close> record with that section
  and offset parses, which is the public symbol \<^verbatim>\<open>parseSymbolAt\<close> builds there (the step
  \<^verbatim>\<open>SymbolTable.ByAddress\<close> applies to the returned offset).\<close>

theorem FindByAddress_containing_symbol:
  assumes perm: "set (sort_Slice addr_less (address_entries addrMap symData))
                   = set (address_entries addrMap symData)"
    and srt: "sorted_wrt (\<lambda>a b. \<not> addr_less b a)
                (sort_Slice addr_less (address_entries addrMap symData))"
  shows "(case FindByAddress (NewAddressIndex sort_Slice addrMap symData) section offset of
           (symOffset, exact, found) \<Rightarrow>
             (found \<longleftrightarrow> (\<exists>e \<in> set (entries (NewAddressIndex sort_Slice addrMap symData)).
                            sa_Section e = section \<and> sa_Offset e \<le> offset))
           \<and> (found \<longrightarrow>
                 (\<exists>e. containing (entries (NewAddressIndex sort_Slice addrMap symData)) section offset e
                      \<and> symOffset = sa_SymOffset e \<and> (exact \<longleftrightarrow> sa_Offset e = offset)))
           \<and> (\<not> found \<longrightarrow> symOffset = 0 \<and> \<not> exact))
       \<and> sorted (map addr_key (entries (NewAddressIndex sort_Slice addrMap symData)))
       \<and> (\<forall>e \<in> set (entries (NewAddressIndex sort_Slice addrMap symData)).
             sa_SymOffset e \<in> set addrMap
           \<and> (\<exists>rec sz sy. ParseSymbolRecord (drop (unat (sa_SymOffset e)) symData) = Inr (rec, sz)
                  \<and> Kind rec = S_PUB32 \<and> ParsePublicSym32 (Data rec) = Inr sy
                  \<and> sa_Section e = pub_Segment sy \<and> sa_Offset e = pub_Offset sy)
           \<and> (\<exists>ps. parseSymbolAt (newSymbolTable (Some symData)) (sa_SymOffset e) = Some (IsPublic ps)
                  \<and> ps_section ps = sa_Section e \<and> ps_offset ps = sa_Offset e))"
proof -
  define es where "es = sort_Slice addr_less (address_entries addrMap symData)"
  have idx: "NewAddressIndex sort_Slice addrMap symData = \<lparr>entries = es\<rparr>"
    by (simp add: NewAddressIndex_def es_def)
  have ent: "entries \<lparr>entries = es\<rparr> = es" by simp
  have st: "set es = set (address_entries addrMap symData)"
    using perm unfolding es_def .
  have srt': "sorted_wrt (\<lambda>a b. \<not> addr_less b a) es" using srt by (simp only: es_def)
  have 1: "case FindByAddress \<lparr>entries = es\<rparr> section offset of
           (symOffset, exact, found) \<Rightarrow>
             (found \<longleftrightarrow> (\<exists>e \<in> set es. sa_Section e = section \<and> sa_Offset e \<le> offset))
           \<and> (found \<longrightarrow> (\<exists>e. containing es section offset e \<and> symOffset = sa_SymOffset e
                              \<and> (exact \<longleftrightarrow> sa_Offset e = offset)))
           \<and> (\<not> found \<longrightarrow> symOffset = 0 \<and> \<not> exact)"
    by (rule FindByAddress_sorted [OF srt'])
  have "sorted_wrt (\<lambda>a b. addr_key a \<le> addr_key b) es"
    using srt' by (simp add: addr_less_key not_less)
  then have 2: "sorted (map addr_key es)" by (simp add: sorted_map)
  have 3: "sa_SymOffset e \<in> set addrMap
           \<and> (\<exists>rec sz sy. ParseSymbolRecord (drop (unat (sa_SymOffset e)) symData) = Inr (rec, sz)
                  \<and> Kind rec = S_PUB32 \<and> ParsePublicSym32 (Data rec) = Inr sy
                  \<and> sa_Section e = pub_Segment sy \<and> sa_Offset e = pub_Offset sy)
           \<and> (\<exists>ps. parseSymbolAt (newSymbolTable (Some symData)) (sa_SymOffset e) = Some (IsPublic ps)
                  \<and> ps_section ps = sa_Section e \<and> ps_offset ps = sa_Offset e)"
    if "e \<in> set es" for e
  proof -
    have m: "e \<in> set (address_entries addrMap symData)" using that st by simp
    from address_entries_sound [OF m] address_entries_parse [OF m] show ?thesis by blast
  qed
  show ?thesis unfolding idx ent using 1 2 3 by blast
qed


text \<open>Two public symbols, \<^verbatim>\<open>a\<close> at 1:0x10 and \<^verbatim>\<open>b\<close> at 1:0x20, listed in the address map in
  descending order; insertion sort on the key stands for \<^verbatim>\<open>sort.Slice\<close>.\<close>

definition ex_pubs :: "byte list" where
  "ex_pubs = [14, 0, 0x0E, 0x11, 0, 0, 0, 0, 0x10, 0, 0, 0, 1, 0, 0x61, 0,
              14, 0, 0x0E, 0x11, 0, 0, 0, 0, 0x20, 0, 0, 0, 1, 0, 0x62, 0]"

lemma ex_pubs_entries:
  "address_entries [16, 0] ex_pubs =
     [\<lparr>sa_Section = 1, sa_Offset = 0x20, sa_SymOffset = 16\<rparr>,
      \<lparr>sa_Section = 1, sa_Offset = 0x10, sa_SymOffset = 0\<rparr>]"
  by (simp add: address_entries_def address_entry_def ex_pubs_def ParseSymbolRecord_def
        ReadU16_def ReadU32_def NewReader_def Uint16_def Uint32_def Let_def
        S_PUB32_def ParsePublicSym32_def rbind_def rreturn_def ReadCString_def)

lemma ex_pubs_sorted:
  "sort_key addr_key (address_entries [16, 0] ex_pubs) =
     [\<lparr>sa_Section = 1, sa_Offset = 0x10, sa_SymOffset = 0\<rparr>,
      \<lparr>sa_Section = 1, sa_Offset = 0x20, sa_SymOffset = 16\<rparr>]"
  by (simp add: ex_pubs_entries addr_key_def)

theorem FindByAddress_containing_symbol_witness:
  "FindByAddress (NewAddressIndex (\<lambda>less. sort_key addr_key) [16, 0] ex_pubs) 1 0x18 = (0, False, True)
   \<and> FindByAddress (NewAddressIndex (\<lambda>less. sort_key addr_key) [16, 0] ex_pubs) 1 0x20 = (16, True, True)
   \<and> FindByAddress (NewAddressIndex (\<lambda>less. sort_key addr_key) [16, 0] ex_pubs) 1 0x08 = (0, False, False)
   \<and> entries (NewAddressIndex (\<lambda>less. sort_key addr_key) [16, 0] ex_pubs) =
       [\<lparr>sa_Section = 1, sa_Offset = 0x10, sa_SymOffset = 0\<rparr>,
        \<lparr>sa_Section = 1, sa_Offset = 0x20, sa_SymOffset = 16\<rparr>]"
proof -
  have perm: "set ((\<lambda>less. sort_key addr_key) addr_less (address_entries [16, 0] ex_pubs))
                = set (address_entries [16, 0] ex_pubs)"
    by simp
  have srt: "sorted_wrt (\<lambda>a b. \<not> addr_less b a)
               ((\<lambda>less. sort_key addr_key) addr_less (address_entries [16, 0] ex_pubs))"
    by (simp add: ex_pubs_sorted addr_less_def)
  note T = FindByAddress_containing_symbol
             [of "\<lambda>less. sort_key addr_key" "[16, 0]" ex_pubs 1 "0x08", OF perm srt]
  have E: "entries (NewAddressIndex (\<lambda>less. sort_key addr_key) [16, 0] ex_pubs) =
       [\<lparr>sa_Section = 1, sa_Offset = 0x10, sa_SymOffset = 0\<rparr>,
        \<lparr>sa_Section = 1, sa_Offset = 0x20, sa_SymOffset = 16\<rparr>]"
    by (simp add: NewAddressIndex_def ex_pubs_sorted)
  have I: "NewAddressIndex (\<lambda>less. sort_key addr_key) [16, 0] ex_pubs =
       \<lparr>entries = [\<lparr>sa_Section = 1, sa_Offset = 0x10, sa_SymOffset = 0\<rparr>,
        \<lparr>sa_Section = 1, sa_Offset = 0x20, sa_SymOffset = 16\<rparr>]\<rparr>"
    by (simp add: NewAddressIndex_def ex_pubs_sorted)
  have a: "FindByAddress (NewAddressIndex (\<lambda>less. sort_key addr_key) [16, 0] ex_pubs) 1 0x18 = (0, False, True)"
    unfolding I by (simp add: FindByAddress_def sort_Search_def sort_Search_loop.simps Let_def)
  have b: "FindByAddress (NewAddressIndex (\<lambda>less. sort_key addr_key) [16, 0] ex_pubs) 1 0x20 = (16, True, True)"
    unfolding I by (simp add: FindByAddress_def sort_Search_def sort_Search_loop.simps Let_def)
  have c: "FindByAddress (NewAddressIndex (\<lambda>less. sort_key addr_key) [16, 0] ex_pubs) 1 0x08 = (0, False, False)"
    using T unfolding I
    by (simp add: FindByAddress_def sort_Search_def sort_Search_loop.simps Let_def)
  from a b c E show ?thesis by simp
qed



section \<open>Demangling wrappers (internal/demangle, pdb/symbol.go)\<close>

text \<open>\<^verbatim>\<open>Demangle\<close> and \<^verbatim>\<open>DemangleSimple\<close> wrap the parser of decorated names. The parser itself,
  \<^verbatim>\<open>newDemangler(decorated).parse()\<close> followed by \<^verbatim>\<open>node.String()\<close>, is a parameter of the model:
  it returns an error or the readable name, and \<open>None\<close> stands for a call that does not return.
  The statements below hold for every such parser. \<^verbatim>\<open>ErrUnexpectedEnd\<close> of this package is
  written \<open>ErrUnexpectedEndOfInput\<close>. A Go string is a byte sequence: \<^verbatim>\<open>'?'\<close> is \<open>0x3F\<close> and
  \<^verbatim>\<open>'_'\<close> is \<open>0x5F\<close>.\<close>

datatype demangle_error =
    ErrEmptyInput
  | ErrInvalidMangled
  | ErrUnexpectedEndOfInput
  | ErrInvalidBackref
  | ErrUnknownOperator
  | ErrUnknownType










section \<open>Type records and members (internal/tpi, pdb/type.go)\<close>

text \<open>String constants of the source are written with \<open>gostr\<close>, the bytes of an ASCII literal.\<close>

type_synonym TypeIndex = "32 word"

definition gostr :: "string \<Rightarrow> gostring" where
  "gostr s = map (\<lambda>c. of_nat (of_char c)) s"

definition ReadBytesRef :: "nat \<Rightarrow> byte list rd" where
  "ReadBytesRef n r =
     (if r_offset r + n > length (r_data r) then (Inl ErrUnexpectedEOF, r)
      else (Inr (take n (drop (r_offset r) (r_data r))), r\<lparr>r_offset := r_offset r + n\<rparr>))"

definition PeekU8 :: "Reader \<Rightarrow> stream_error + 8 word" where
  "PeekU8 r = (if r_offset r \<ge> length (r_data r) then Inl ErrUnexpectedEOF
               else Inr (r_data r ! r_offset r))"

text \<open>Leaf kinds and the first type index that has a record (tpi/constants.go).\<close>

definition FirstUserTypeIndex :: TypeIndex where "FirstUserTypeIndex = 0x1000"

definition LF_CLASS_ST :: "16 word" where "LF_CLASS_ST = 0x1004"
definition LF_STRUCTURE_ST :: "16 word" where "LF_STRUCTURE_ST = 0x1005"
definition LF_UNION_ST :: "16 word" where "LF_UNION_ST = 0x1006"
definition LF_FIELDLIST :: "16 word" where "LF_FIELDLIST = 0x1203"
definition LF_BCLASS :: "16 word" where "LF_BCLASS = 0x1400"
definition LF_VBCLASS :: "16 word" where "LF_VBCLASS = 0x1401"
definition LF_IVBCLASS :: "16 word" where "LF_IVBCLASS = 0x1402"
definition LF_INDEX :: "16 word" where "LF_INDEX = 0x1404"
definition LF_VFUNCTAB :: "16 word" where "LF_VFUNCTAB = 0x1409"
definition LF_ENUMERATE :: "16 word" where "LF_ENUMERATE = 0x1502"
definition LF_CLASS :: "16 word" where "LF_CLASS = 0x1504"
definition LF_STRUCTURE :: "16 word" where "LF_STRUCTURE = 0x1505"
definition LF_UNION :: "16 word" where "LF_UNION = 0x1506"
definition LF_MEMBER :: "16 word" where "LF_MEMBER = 0x150d"
definition LF_STMEMBER :: "16 word" where "LF_STMEMBER = 0x150e"
definition LF_METHOD :: "16 word" where "LF_METHOD = 0x150f"
definition LF_NESTTYPE :: "16 word" where "LF_NESTTYPE = 0x1510"
definition LF_ONEMETHOD :: "16 word" where "LF_ONEMETHOD = 0x1511"

lemmas LF_defs = LF_CLASS_ST_def LF_STRUCTURE_ST_def LF_UNION_ST_def LF_FIELDLIST_def LF_BCLASS_def
  LF_VBCLASS_def LF_IVBCLASS_def LF_INDEX_def LF_VFUNCTAB_def LF_ENUMERATE_def LF_CLASS_def
  LF_STRUCTURE_def LF_UNION_def LF_MEMBER_def LF_STMEMBER_def LF_METHOD_def LF_NESTTYPE_def
  LF_ONEMETHOD_def

text \<open>The TPI stream after \<^verbatim>\<open>ParseStream\<close>: the range of type indices of the header, the bytes of
  the records, the offset of each record and the cache of parsed records (a \<^verbatim>\<open>sync.Map\<close>).
  \<^verbatim>\<open>GetTypeRecord\<close> answers from the cache when it can, returns no record and no error for a
  simple type, and otherwise reads the 16-bit length, the 16-bit kind and \<^verbatim>\<open>length - 2\<close> bytes
  at the recorded offset and stores the record in the cache. \<open>PanicSliceBounds\<close> is the run-time
  panic of \<^verbatim>\<open>s.rawRecords[offset:]\<close> for an offset beyond the data.\<close>

datatype tpi_error =
    ErrTypeIndexOutOfRange
  | ErrInvalidTypeRecord
  | TpiStreamError stream_error
  | PanicSliceBounds

record TypeRecord =
  tr_Kind :: "16 word"
  tr_Data :: "byte list"

record TpiStream =
  TypeIndexBegin :: TypeIndex
  TypeIndexEnd :: TypeIndex
  rawRecords :: "byte list"
  recordOffsets :: "TypeIndex \<rightharpoonup> 32 word"
  typeCache :: "TypeIndex \<rightharpoonup> TypeRecord"

definition GetTypeRecord :: "TpiStream \<Rightarrow> TypeIndex \<Rightarrow> (tpi_error + TypeRecord option) \<times> TpiStream" where
  "GetTypeRecord s ti =
     (case typeCache s ti of
        Some cached \<Rightarrow> (Inr (Some cached), s)
      | None \<Rightarrow>
          if ti < FirstUserTypeIndex then (Inr None, s)
          else if ti < TypeIndexBegin s \<or> ti \<ge> TypeIndexEnd s then (Inl ErrTypeIndexOutOfRange, s)
          else
            (case recordOffsets s ti of
               None \<Rightarrow> (Inl ErrTypeIndexOutOfRange, s)
             | Some offset \<Rightarrow>
                 if unat offset > length (rawRecords s) then (Inl PanicSliceBounds, s)
                 else
                   (case rbind ReadU16 (\<lambda>recordLen.
                         rbind ReadU16 (\<lambda>kind. rreturn (recordLen, kind)))
                           (NewReader (drop (unat offset) (rawRecords s))) of
                      (Inl e, r) \<Rightarrow> (Inl (TpiStreamError e), s)
                    | (Inr (recordLen, kind), r) \<Rightarrow>
                        let dataLen = int (unat recordLen) - 2 in
                        if dataLen < 0 then (Inl ErrInvalidTypeRecord, s)
                        else
                          (case ReadBytesRef (nat dataLen) r of
                             (Inl e, r') \<Rightarrow> (Inl (TpiStreamError e), s)
                           | (Inr d, r') \<Rightarrow>
                               let record = \<lparr>tr_Kind = kind, tr_Data = d\<rparr>
                               in (Inr (Some record),
                                   s\<lparr>typeCache := (typeCache s)(ti \<mapsto> record)\<rparr>)))))"

definition HasUniqueName :: "16 word \<Rightarrow> bool" where
  "HasUniqueName cp = (cp AND 0x0200 \<noteq> 0)"

definition IsForwardRef :: "16 word \<Rightarrow> bool" where
  "IsForwardRef cp = (cp AND 0x0080 \<noteq> 0)"

record ClassRecord =
  cr_MemberCount :: "16 word"
  cr_Properties :: "16 word"
  cr_FieldList :: TypeIndex
  cr_DerivedFrom :: TypeIndex
  cr_VShape :: TypeIndex
  cr_Size :: "64 word"
  cr_Name :: gostring
  cr_UniqueName :: gostring

definition ParseClassRecord :: "byte list \<Rightarrow> stream_error + ClassRecord" where
  "ParseClassRecord d = fst (
     rbind ReadU16 (\<lambda>memberCount.
     rbind ReadU16 (\<lambda>props.
     rbind ReadU32 (\<lambda>fieldList.
     rbind ReadU32 (\<lambda>derivedFrom.
     rbind ReadU32 (\<lambda>vshape.
     rbind ReadNumeric (\<lambda>sz.
     rbind ReadCString (\<lambda>name.
       let rec = \<lparr>cr_MemberCount = memberCount, cr_Properties = props, cr_FieldList = fieldList,
                   cr_DerivedFrom = derivedFrom, cr_VShape = vshape, cr_Size = sz,
                   cr_Name = name, cr_UniqueName = []\<rparr>
       in if HasUniqueName props
          then rbind ReadCString (\<lambda>uniqueName. rreturn (rec\<lparr>cr_UniqueName := uniqueName\<rparr>))
          else rreturn rec)))))))
     (NewReader d))"

record UnionRecord =
  ur_MemberCount :: "16 word"
  ur_Properties :: "16 word"
  ur_FieldList :: TypeIndex
  ur_Size :: "64 word"
  ur_Name :: gostring
  ur_UniqueName :: gostring

definition ParseUnionRecord :: "byte list \<Rightarrow> stream_error + UnionRecord" where
  "ParseUnionRecord d = fst (
     rbind ReadU16 (\<lambda>memberCount.
     rbind ReadU16 (\<lambda>props.
     rbind ReadU32 (\<lambda>fieldList.
     rbind ReadNumeric (\<lambda>sz.
     rbind ReadCString (\<lambda>name.
       let rec = \<lparr>ur_MemberCount = memberCount, ur_Properties = props, ur_FieldList = fieldList,
                   ur_Size = sz, ur_Name = name, ur_UniqueName = []\<rparr>
       in if HasUniqueName props
          then rbind ReadCString (\<lambda>uniqueName. rreturn (rec\<lparr>ur_UniqueName := uniqueName\<rparr>))
          else rreturn rec)))))
     (NewReader d))"

text \<open>The members of a field list and their parsers. A parser that fails leaves the reader
  where the failing read left it.\<close>

datatype FieldListMember =
    MemberRecord (mr_Access: "8 word") (mr_Type: TypeIndex) (mr_Offset: "64 word") (mr_Name: gostring)
  | StaticMemberRecord (sm_Access: "8 word") (sm_Type: TypeIndex) (sm_Name: gostring)
  | MethodRecord (me_Count: "16 word") (me_MethodList: TypeIndex) (me_Name: gostring)
  | OneMethodRecord (om_Attributes: "16 word") (om_Type: TypeIndex) (om_VBaseOffset: "32 word")
      (om_Name: gostring)
  | NestedTypeRecord (nt_Type: TypeIndex) (nt_Name: gostring)
  | BaseClassRecord (bc_Access: "8 word") (bc_Type: TypeIndex) (bc_Offset: "64 word")
  | VirtualBaseClassRecord (vb_Access: "8 word") (vb_BaseType: TypeIndex) (vb_VBPtrType: TypeIndex)
      (vb_VBPtrOffset: "64 word") (vb_VBTableIndex: "64 word")
  | EnumerateRecord (en_Access: "8 word") (en_Value: "64 word") (en_Name: gostring)
  | VFuncTabRecord (vf_Type: TypeIndex)

definition parseMemberField :: "FieldListMember rd" where
  "parseMemberField =
     rbind ReadU16 (\<lambda>attrs.
     rbind ReadU32 (\<lambda>typ.
     rbind ReadNumeric (\<lambda>offset.
     rbind ReadCString (\<lambda>name.
     rreturn (MemberRecord (ucast (attrs AND 0x03)) typ offset name)))))"

definition parseStaticMemberField :: "FieldListMember rd" where
  "parseStaticMemberField =
     rbind ReadU16 (\<lambda>attrs.
     rbind ReadU32 (\<lambda>typ.
     rbind ReadCString (\<lambda>name.
     rreturn (StaticMemberRecord (ucast (attrs AND 0x03)) typ name))))"

definition parseMethodField :: "FieldListMember rd" where
  "parseMethodField =
     rbind ReadU16 (\<lambda>count.
     rbind ReadU32 (\<lambda>methodList.
     rbind ReadCString (\<lambda>name.
     rreturn (MethodRecord count methodList name))))"

definition parseOneMethodField :: "FieldListMember rd" where
  "parseOneMethodField =
     rbind ReadU16 (\<lambda>attrs.
     rbind ReadU32 (\<lambda>typ.
       let mprop = drop_bit 2 attrs AND 0x07 in
       rbind (if mprop = 0x04 \<or> mprop = 0x06 then ReadI32 else rreturn 0) (\<lambda>vbaseOffset.
       rbind ReadCString (\<lambda>name.
       rreturn (OneMethodRecord attrs typ vbaseOffset name)))))"

definition parseNestedTypeField :: "FieldListMember rd" where
  "parseNestedTypeField =
     rbind ReadU16 (\<lambda>pad.
     rbind ReadU32 (\<lambda>typ.
     rbind ReadCString (\<lambda>name.
     rreturn (NestedTypeRecord typ name))))"

definition parseBaseClassField :: "FieldListMember rd" where
  "parseBaseClassField =
     rbind ReadU16 (\<lambda>attrs.
     rbind ReadU32 (\<lambda>typ.
     rbind ReadNumeric (\<lambda>offset.
     rreturn (BaseClassRecord (ucast (attrs AND 0x03)) typ offset))))"

definition parseVirtualBaseClassField :: "FieldListMember rd" where
  "parseVirtualBaseClassField =
     rbind ReadU16 (\<lambda>attrs.
     rbind ReadU32 (\<lambda>baseType.
     rbind ReadU32 (\<lambda>vbptrType.
     rbind ReadNumeric (\<lambda>vbptrOffset.
     rbind ReadNumeric (\<lambda>vbtableIndex.
     rreturn (VirtualBaseClassRecord (ucast (attrs AND 0x03)) baseType vbptrType vbptrOffset
                vbtableIndex))))))"

definition parseEnumerateField :: "FieldListMember rd" where
  "parseEnumerateField =
     rbind ReadU16 (\<lambda>attrs.
     rbind ReadNumeric (\<lambda>v.
     rbind ReadCString (\<lambda>name.
     rreturn (EnumerateRecord (ucast (attrs AND 0x03)) v name))))"

definition parseVFuncTabField :: "FieldListMember rd" where
  "parseVFuncTabField =
     rbind ReadU16 (\<lambda>pad.
     rbind ReadU32 (\<lambda>typ.
     rreturn (VFuncTabRecord typ)))"

text \<open>\<^verbatim>\<open>parseFieldListMember\<close>: \<open>None\<close> is the \<^verbatim>\<open>nil\<close> member returned for \<^verbatim>\<open>LF_INDEX\<close> (after
  reading a type index whose error is ignored) and for an unknown kind.\<close>

definition some_member :: "FieldListMember rd \<Rightarrow> FieldListMember option rd" where
  "some_member m = rbind m (\<lambda>x. rreturn (Some x))"

definition parseFieldListMember :: "16 word \<Rightarrow> FieldListMember option rd" where
  "parseFieldListMember kind =
     (if kind = LF_MEMBER then some_member parseMemberField
      else if kind = LF_STMEMBER then some_member parseStaticMemberField
      else if kind = LF_METHOD then some_member parseMethodField
      else if kind = LF_ONEMETHOD then some_member parseOneMethodField
      else if kind = LF_NESTTYPE then some_member parseNestedTypeField
      else if kind = LF_BCLASS then some_member parseBaseClassField
      else if kind = LF_VBCLASS \<or> kind = LF_IVBCLASS then some_member parseVirtualBaseClassField
      else if kind = LF_ENUMERATE then some_member parseEnumerateField
      else if kind = LF_VFUNCTAB then some_member parseVFuncTabField
      else if kind = LF_INDEX then (\<lambda>r. (Inr None, snd (ReadU32 r)))
      else rreturn None)"

text \<open>\<^verbatim>\<open>ParseFieldListRecord\<close>: before each member the bytes \<open>0xF0\<close> and above are skipped as
  padding; the loop stops when fewer than two bytes remain; a member that fails to parse is
  dropped and the loop continues from where the reader stands. It never returns an error.\<close>

definition skip_padding :: "Reader \<Rightarrow> Reader" where
  "skip_padding r =
     r\<lparr>r_offset := r_offset r
          + length (takeWhile (\<lambda>b. \<not> b < 0xF0) (drop (r_offset r) (r_data r)))\<rparr>"

text \<open>Every read keeps the data and never moves the offset back; this is what makes the loop
  terminate.\<close>

definition advances :: "'a rd \<Rightarrow> bool" where
  "advances m = (\<forall>r. r_data (snd (m r)) = r_data r \<and> r_offset r \<le> r_offset (snd (m r)))"

lemma advances_rreturn [simp]: "advances (rreturn x)"
  by (simp add: advances_def rreturn_def)

lemma advances_rbind [simp]:
  assumes "advances m" "\<And>v. advances (f v)"
  shows "advances (rbind m f)"
  unfolding advances_def
proof (intro allI)
  fix r
  obtain x r' where m: "m r = (x, r')" by (cases "m r")
  have a: "r_data r' = r_data r" "r_offset r \<le> r_offset r'"
    using assms(1) m unfolding advances_def by (metis snd_conv)+
  show "r_data (snd (rbind m f r)) = r_data r \<and> r_offset r \<le> r_offset (snd (rbind m f r))"
  proof (cases x)
    case (Inl e)
    then show ?thesis using m a by (simp add: rbind_def)
  next
    case (Inr v)
    have "r_data (snd (f v r')) = r_data r'" "r_offset r' \<le> r_offset (snd (f v r'))"
      using assms(2) [of v] unfolding advances_def by blast+
    then show ?thesis using m a Inr by (simp add: rbind_def)
  qed
qed

lemma advances_if [simp]: "advances a \<Longrightarrow> advances b \<Longrightarrow> advances (if c then a else b)"
  by simp

lemma advances_let [simp]: "(\<And>x. advances (f x)) \<Longrightarrow> advances (let x = v in f x)"
  by simp

lemma advances_ReadU8 [simp]: "advances ReadU8"
  by (simp add: advances_def ReadU8_def)
lemma advances_ReadU16 [simp]: "advances ReadU16"
  by (simp add: advances_def ReadU16_def)
lemma advances_ReadU32 [simp]: "advances ReadU32"
  by (simp add: advances_def ReadU32_def)
lemma advances_ReadU64 [simp]: "advances ReadU64"
  by (simp add: advances_def ReadU64_def)
lemma advances_ReadI8 [simp]: "advances ReadI8"
  by (simp add: ReadI8_def)
lemma advances_ReadI16 [simp]: "advances ReadI16"
  by (simp add: ReadI16_def)
lemma advances_ReadI32 [simp]: "advances ReadI32"
  by (simp add: ReadI32_def)
lemma advances_ReadI64 [simp]: "advances ReadI64"
  by (simp add: ReadI64_def)
lemma advances_fail [simp]: "advances (\<lambda>r. (Inl e, r))"
  by (simp add: advances_def)
lemma advances_ReadCString [simp]: "advances ReadCString"
  by (simp add: advances_def ReadCString_def Let_def)
lemma advances_ReadNumeric [simp]: "advances ReadNumeric"
  unfolding ReadNumeric_def by (intro advances_rbind advances_if advances_rreturn) simp_all

lemma advances_parseFieldListMember: "advances (parseFieldListMember kind)"
proof -
  have "advances (\<lambda>r. (Inr None :: stream_error + FieldListMember option, snd (ReadU32 r)))"
    using advances_ReadU32 by (simp add: advances_def)
  then show ?thesis
    by (simp add: parseFieldListMember_def some_member_def parseMemberField_def
        parseStaticMemberField_def parseMethodField_def parseOneMethodField_def
        parseNestedTypeField_def parseBaseClassField_def parseVirtualBaseClassField_def
        parseEnumerateField_def parseVFuncTabField_def Let_def)
qed


lemma skip_padding_advances:
  "r_data (skip_padding r) = r_data r" "r_offset r \<le> r_offset (skip_padding r)"
  by (simp_all add: skip_padding_def)

lemma loop_decreases:
  assumes "Remaining r > 0" "\<not> Remaining (skip_padding r) < 2"
    and "ReadU16 (skip_padding r) = (Inr kind, r2)"
    and "parseFieldListMember kind r2 = (x, r3)"
  shows "length (r_data r3) - r_offset r3 < length (r_data r) - r_offset r"
proof -
  have a: "r_data r3 = r_data r2" "r_offset r2 \<le> r_offset r3"
    using advances_parseFieldListMember [of kind] assms(4)
    unfolding advances_def by (metis snd_conv)+
  have b: "r_data r2 = r_data (skip_padding r)" "r_offset r2 = r_offset (skip_padding r) + 2"
    using assms(2,3) by (auto simp: ReadU16_def Remaining_def split: if_splits)
  show ?thesis
    using assms(1,2) a b skip_padding_advances [of r]
    by (auto simp: Remaining_def split: if_splits)
qed

lemma loop_measure:
  assumes "0 < Remaining r" "x = skip_padding r" "\<not> Remaining x < 2"
    and "(xa, y) = ReadU16 x" "xa = Inr b" "(xb, ya) = parseFieldListMember b y"
  shows "((ya, ms'), r, ms) \<in> measure (\<lambda>(r, members). length (r_data r) - r_offset r)"
proof -
  have "ReadU16 (skip_padding r) = (Inr b, y)" using assms(2,4,5) by simp
  moreover have "parseFieldListMember b y = (xb, ya)" using assms(6) by simp
  ultimately have "length (r_data ya) - r_offset ya < length (r_data r) - r_offset r"
    using assms(1,2,3) by (intro loop_decreases [of r b y xb ya]) simp_all
  then show ?thesis by simp
qed

function ParseFieldListRecord_loop :: "Reader \<Rightarrow> FieldListMember list \<Rightarrow> FieldListMember list" where
  "ParseFieldListRecord_loop r members =
     (if Remaining r > 0 then
        (let r1 = skip_padding r in
         if Remaining r1 < 2 then members
         else
           (case ReadU16 r1 of
              (Inl e, r2) \<Rightarrow> members
            | (Inr kind, r2) \<Rightarrow>
                (case parseFieldListMember kind r2 of
                   (Inl e, r3) \<Rightarrow> ParseFieldListRecord_loop r3 members
                 | (Inr None, r3) \<Rightarrow> ParseFieldListRecord_loop r3 members
                 | (Inr (Some member), r3) \<Rightarrow> ParseFieldListRecord_loop r3 (members @ [member]))))
      else members)"
  by pat_completeness auto
termination
  apply (relation "measure (\<lambda>(r, members). length (r_data r) - r_offset r)")
  apply simp
  apply (rule loop_measure; assumption)+
  done

declare ParseFieldListRecord_loop.simps [simp del]

definition ParseFieldListRecord :: "byte list \<Rightarrow> FieldListMember list" where
  "ParseFieldListRecord d = ParseFieldListRecord_loop (NewReader d) []"


text \<open>\<^verbatim>\<open>TypeTable.GetMembers\<close> (pdb/type.go). \<open>GetMembers_member\<close> is the body of its loop over
  the field list: the \<^verbatim>\<open>Member\<close> literal built for a \<^verbatim>\<open>StaticMemberRecord\<close> sets \<^verbatim>\<open>Offset: 0\<close> and
  does not set \<^verbatim>\<open>IsStatic\<close>, which therefore has Go's zero value \<^verbatim>\<open>false\<close>. A \<^verbatim>\<open>nil\<close> slice is the
  empty list.\<close>

definition MemberAccess_String :: "8 word \<Rightarrow> gostring" where
  "MemberAccess_String ma =
     (if ma = 1 then gostr ''private''
      else if ma = 2 then gostr ''protected''
      else if ma = 3 then gostr ''public''
      else [])"

record Member =
  m_Name :: gostring
  m_Type :: TypeIndex
  m_Offset :: "64 word"
  m_Access :: gostring
  m_OwnerType :: TypeIndex
  m_OwnerName :: gostring
  m_IsStatic :: bool

record memberNameIndex =
  byName :: "gostring \<rightharpoonup> Member list"
  byQualifiedName :: "gostring \<rightharpoonup> Member list"
  inheritance :: "(gostring \<times> gostring list) list"

record TypeTable =
  tpiStream :: TpiStream
  memberIndex :: "memberNameIndex option"
  memberIndexOnce :: bool

datatype pdb_error = ErrTypeNotFound | ParseError stream_error

definition GetMembers_member :: "TypeIndex \<Rightarrow> gostring \<Rightarrow> FieldListMember \<Rightarrow> Member list" where
  "GetMembers_member typeIndex ownerName m =
     (case m of
        MemberRecord access typ offset name \<Rightarrow>
          [\<lparr>m_Name = name, m_Type = typ, m_Offset = offset, m_Access = MemberAccess_String access,
            m_OwnerType = typeIndex, m_OwnerName = ownerName, m_IsStatic = False\<rparr>]
      | StaticMemberRecord access typ name \<Rightarrow>
          [\<lparr>m_Name = name, m_Type = typ, m_Offset = 0, m_Access = MemberAccess_String access,
            m_OwnerType = typeIndex, m_OwnerName = ownerName, m_IsStatic = False\<rparr>]
      | _ \<Rightarrow> [])"

definition GetMembers :: "TypeTable \<Rightarrow> TypeIndex \<Rightarrow> (pdb_error + Member list) \<times> TypeTable" where
  "GetMembers tt typeIndex =
     (case GetTypeRecord (tpiStream tt) typeIndex of
        (Inl e, s1) \<Rightarrow> (Inl ErrTypeNotFound, tt\<lparr>tpiStream := s1\<rparr>)
      | (Inr None, s1) \<Rightarrow> (Inl ErrTypeNotFound, tt\<lparr>tpiStream := s1\<rparr>)
      | (Inr (Some record), s1) \<Rightarrow>
          (case (if tr_Kind record = LF_CLASS \<or> tr_Kind record = LF_CLASS_ST
                    \<or> tr_Kind record = LF_STRUCTURE \<or> tr_Kind record = LF_STRUCTURE_ST then
                   (case ParseClassRecord (tr_Data record) of
                      Inl e \<Rightarrow> Inl (ParseError e)
                    | Inr rec \<Rightarrow> Inr (cr_Name rec, cr_FieldList rec))
                 else if tr_Kind record = LF_UNION \<or> tr_Kind record = LF_UNION_ST then
                   (case ParseUnionRecord (tr_Data record) of
                      Inl e \<Rightarrow> Inl (ParseError e)
                    | Inr rec \<Rightarrow> Inr (ur_Name rec, ur_FieldList rec))
                 else Inl ErrTypeNotFound) of
             Inl e \<Rightarrow> (Inl e, tt\<lparr>tpiStream := s1\<rparr>)
           | Inr (ownerName, fieldListIndex) \<Rightarrow>
               if fieldListIndex = 0 then (Inr [], tt\<lparr>tpiStream := s1\<rparr>)
               else
                 (case GetTypeRecord s1 fieldListIndex of
                    (Inl e, s2) \<Rightarrow> (Inr [], tt\<lparr>tpiStream := s2\<rparr>)
                  | (Inr None, s2) \<Rightarrow> (Inr [], tt\<lparr>tpiStream := s2\<rparr>)
                  | (Inr (Some fieldRecord), s2) \<Rightarrow>
                      if tr_Kind fieldRecord \<noteq> LF_FIELDLIST then (Inr [], tt\<lparr>tpiStream := s2\<rparr>)
                      else
                        (Inr (concat (map (GetMembers_member typeIndex ownerName)
                                       (ParseFieldListRecord (tr_Data fieldRecord)))),
                         tt\<lparr>tpiStream := s2\<rparr>))))"

text \<open>No member returned by \<^verbatim>\<open>GetMembers\<close> is flagged static, whatever the stream holds.\<close>

lemma GetMembers_member_not_static:
  "m \<in> set (GetMembers_member typeIndex ownerName x) \<Longrightarrow> \<not> m_IsStatic m"
  by (cases x) (auto simp: GetMembers_member_def)

lemma GetMembers_never_static:
  assumes "fst (GetMembers tt typeIndex) = Inr ms" "m \<in> set ms"
  shows "\<not> m_IsStatic m"
  using assms
  by (auto simp: GetMembers_def dest: GetMembers_member_not_static
      split: prod.splits sum.splits option.splits if_splits)

text \<open>A stream with two records: at index \<open>0x1000\<close> a field list with the static member \<^verbatim>\<open>n\<close>
  (\<^verbatim>\<open>LF_STMEMBER\<close>, public, type \<open>0x74\<close>), two padding bytes and the data member \<^verbatim>\<open>x\<close> at offset 4;
  at index \<open>0x1001\<close> the structure \<^verbatim>\<open>S\<close> with that field list.\<close>

definition ex_fieldlist :: "byte list" where
  "ex_fieldlist = [0x0E, 0x15, 3, 0, 0x74, 0, 0, 0, 0x6E, 0,  0xF2, 0xF1,
                   0x0D, 0x15, 3, 0, 0x74, 0, 0, 0, 4, 0, 0x78, 0]"

definition ex_struct :: "byte list" where
  "ex_struct = [2, 0,  0, 0,  0, 0x10, 0, 0,  0, 0, 0, 0,  0, 0, 0, 0,  8, 0,  0x53, 0]"

definition ex_tpi :: TpiStream where
  "ex_tpi = \<lparr>TypeIndexBegin = 0x1000, TypeIndexEnd = 0x1002,
             rawRecords = [26, 0, 0x03, 0x12] @ ex_fieldlist @ [22, 0, 0x05, 0x15] @ ex_struct,
             recordOffsets = [0x1000 \<mapsto> 0, 0x1001 \<mapsto> 28],
             typeCache = Map.empty\<rparr>"

definition ex_tt :: TypeTable where
  "ex_tt = \<lparr>tpiStream = ex_tpi, memberIndex = None, memberIndexOnce = False\<rparr>"

lemma ex_fieldlist_parse:
  "ParseFieldListRecord ex_fieldlist =
     [StaticMemberRecord 3 0x74 [0x6E], MemberRecord 3 0x74 4 [0x78]]"
  by (simp add: ParseFieldListRecord_def ex_fieldlist_def ParseFieldListRecord_loop.simps
        NewReader_def Remaining_def skip_padding_def ReadU16_def ReadU32_def Uint16_def Uint32_def
        parseFieldListMember_def LF_defs some_member_def parseStaticMemberField_def
        parseMemberField_def rbind_def rreturn_def ReadCString_def ReadNumeric_def Let_def)


lemma ex_records:
  "fst (GetTypeRecord ex_tpi 0x1001) = Inr (Some \<lparr>tr_Kind = LF_STRUCTURE, tr_Data = ex_struct\<rparr>)"
  "snd (GetTypeRecord ex_tpi 0x1001)
     = ex_tpi\<lparr>typeCache := [0x1001 \<mapsto> \<lparr>tr_Kind = LF_STRUCTURE, tr_Data = ex_struct\<rparr>]\<rparr>"
  "fst (GetTypeRecord (ex_tpi\<lparr>typeCache := [0x1001 \<mapsto> \<lparr>tr_Kind = LF_STRUCTURE, tr_Data = ex_struct\<rparr>]\<rparr>) 0x1000)
     = Inr (Some \<lparr>tr_Kind = LF_FIELDLIST, tr_Data = ex_fieldlist\<rparr>)"
  by (simp_all add: GetTypeRecord_def ex_tpi_def FirstUserTypeIndex_def NewReader_def
        ReadU16_def Uint16_def rbind_def rreturn_def ReadBytesRef_def Let_def LF_defs
        ex_fieldlist_def ex_struct_def)

lemma ex_struct_parse:
  "ParseClassRecord ex_struct =
     Inr \<lparr>cr_MemberCount = 2, cr_Properties = 0, cr_FieldList = 0x1000, cr_DerivedFrom = 0,
          cr_VShape = 0, cr_Size = 8, cr_Name = [0x53], cr_UniqueName = []\<rparr>"
  by (simp add: ParseClassRecord_def ex_struct_def NewReader_def ReadU16_def ReadU32_def
        Uint16_def Uint32_def rbind_def rreturn_def ReadCString_def ReadNumeric_def Let_def
        HasUniqueName_def)

text \<open>C8. \<^verbatim>\<open>GetMembers\<close> on the structure returns both members in field-list order, the data
  member with its decoded offset 4 and the static member with offset 0; but the static member
  is returned with \<^verbatim>\<open>IsStatic\<close> false, where the claim (and the comment on the field,
  \<^verbatim>\<open>True if this is a static member\<close>) says true.\<close>

theorem GetMembers_static_member_not_flagged:
  "ParseFieldListRecord ex_fieldlist =
     [StaticMemberRecord 3 0x74 [0x6E], MemberRecord 3 0x74 4 [0x78]]
   \<and> fst (GetMembers ex_tt 0x1001) =
     Inr [\<lparr>m_Name = [0x6E], m_Type = 0x74, m_Offset = 0, m_Access = gostr ''public'',
            m_OwnerType = 0x1001, m_OwnerName = [0x53], m_IsStatic = False\<rparr>,
          \<lparr>m_Name = [0x78], m_Type = 0x74, m_Offset = 4, m_Access = gostr ''public'',
            m_OwnerType = 0x1001, m_OwnerName = [0x53], m_IsStatic = False\<rparr>]"
proof -
  obtain x1 s1 where g1: "GetTypeRecord ex_tpi 0x1001 = (x1, s1)" by (cases "GetTypeRecord ex_tpi 0x1001")
  have x1: "x1 = Inr (Some \<lparr>tr_Kind = LF_STRUCTURE, tr_Data = ex_struct\<rparr>)"
    and s1: "s1 = ex_tpi\<lparr>typeCache := [0x1001 \<mapsto> \<lparr>tr_Kind = LF_STRUCTURE, tr_Data = ex_struct\<rparr>]\<rparr>"
    using ex_records(1,2) g1 by simp_all
  obtain x2 s2 where g2: "GetTypeRecord s1 0x1000 = (x2, s2)" by (cases "GetTypeRecord s1 0x1000")
  have x2: "x2 = Inr (Some \<lparr>tr_Kind = LF_FIELDLIST, tr_Data = ex_fieldlist\<rparr>)"
    using ex_records(3) g2 s1 by simp
  have "fst (GetMembers ex_tt 0x1001) =
     Inr (concat (map (GetMembers_member 0x1001 [0x53]) (ParseFieldListRecord ex_fieldlist)))"
    by (simp add: GetMembers_def ex_tt_def g1 x1 g2 x2 ex_struct_parse LF_defs)
  then show ?thesis
    by (simp add: ex_fieldlist_parse GetMembers_member_def MemberAccess_String_def)
qed

end
